theory Spec2Isabelle
  imports Complex_Main "HOL-Library.Multiset" "HOL-Library.Char_ord" "HOL-Library.List_Lexorder"
    "HOL-Library.Product_Lexorder"
begin

section \<open>Object store, department nodes and the hierarchy\<close>

text \<open>
  \<^verbatim>\<open>app.py\<close> keeps its departments as Python objects that refer to each other: the
  dictionary \<^verbatim>\<open>nodes\<close>, the field \<^verbatim>\<open>root\<close> and every \<^verbatim>\<open>children\<close> list hold
  references to \<^verbatim>\<open>DepartmentNode\<close> objects, and one object may be referenced from several
  places. The model therefore has an explicit object store: a reference is an address,
  the store maps every address to the fields of the object living there, and
  \<open>fresh\<close> is the next address the constructor hands out. Attribute values (\<^verbatim>\<open>head\<close>,
  \<^verbatim>\<open>employees\<close>, \<^verbatim>\<open>budget\<close>, \<^verbatim>\<open>perf\<close>) are whatever Python values the caller passes;
  the hierarchy never inspects them except through \<^verbatim>\<open>int()\<close> and \<^verbatim>\<open>float()\<close>, so their
  type is the parameter \<open>'v\<close>.
\<close>

type_synonym addr = nat

record 'v node =
  name :: string
  head :: 'v
  employees :: 'v
  budget :: 'v
  perf :: 'v
  children :: "addr list"

text \<open>
  \<^verbatim>\<open>DepartmentHierarchy\<close>: \<open>root\<close> is \<^verbatim>\<open>self.root\<close> (\<open>None\<close> for Python's \<^verbatim>\<open>None\<close>),
  \<open>nodes\<close> is the dictionary \<^verbatim>\<open>self.nodes\<close> in its insertion order.
\<close>

record 'v hierarchy =
  store :: "addr \<Rightarrow> 'v node"
  fresh :: addr
  root :: "addr option"
  nodes :: "(string \<times> addr) list"

text \<open>Dictionary operations of Python on the insertion-ordered association list.\<close>

definition dict_set :: "string \<Rightarrow> addr \<Rightarrow> (string \<times> addr) list \<Rightarrow> (string \<times> addr) list" where
  "dict_set k a d =
     (if map_of d k = None then d @ [(k, a)]
      else map (\<lambda>(k', a'). if k' = k then (k', a) else (k', a')) d)"

definition dict_del :: "string \<Rightarrow> (string \<times> addr) list \<Rightarrow> (string \<times> addr) list" where
  "dict_del k d = filter (\<lambda>(k', a'). k' \<noteq> k) d"

definition upd_node :: "'v hierarchy \<Rightarrow> addr \<Rightarrow> ('v node \<Rightarrow> 'v node) \<Rightarrow> 'v hierarchy" where
  "upd_node s a f = s\<lparr>store := (store s)(a := f (store s a))\<rparr>"

definition init :: "'v hierarchy" where
  "init = \<lparr>store = (\<lambda>_. undefined), fresh = 0, root = None, nodes = []\<rparr>"

text \<open>
  \<^verbatim>\<open>DepartmentNode.__init__\<close> (lines 10-16) followed by \<^verbatim>\<open>DepartmentHierarchy.add\<close>
  (lines 23-39). \<^verbatim>\<open>not parent\<close> holds for \<^verbatim>\<open>None\<close> and for the empty string;
  \<^verbatim>\<open>not self.root\<close> holds only for \<^verbatim>\<open>None\<close>, a node object being always truthy.
\<close>

definition add ::
  "'v hierarchy \<Rightarrow> string \<Rightarrow> string option \<Rightarrow> 'v \<Rightarrow> 'v \<Rightarrow> 'v \<Rightarrow> 'v \<Rightarrow> bool \<times> 'v hierarchy" where
  "add s nm parent hv ev bv pv =
     (if map_of (nodes s) nm \<noteq> None then (False, s)
      else
        let a = fresh s;
            new_node = \<lparr>name = nm, head = hv, employees = ev, budget = bv, perf = pv,
                        children = []\<rparr>;
            s1 = s\<lparr>store := (store s)(a := new_node), fresh := Suc a,
                   nodes := dict_set nm a (nodes s)\<rparr>
        in if parent = None \<or> parent = Some []
           then (if root s1 = None then (True, s1\<lparr>root := Some a\<rparr>) else (True, s1))
           else (case map_of (nodes s1) (the parent) of
                   Some pa \<Rightarrow> (True, upd_node s1 pa (\<lambda>n. n\<lparr>children := children n @ [a]\<rparr>))
                 | None \<Rightarrow>
                     (if root s1 = None then (True, s1\<lparr>root := Some a\<rparr>) else (True, s1))))"

text \<open>
  \<^verbatim>\<open>find_parent_and_remove\<close> (lines 41-43): every node of the dictionary gets its child
  list filtered by the name of the referenced object.
\<close>

definition detach_in :: "string \<Rightarrow> addr \<Rightarrow> (addr \<Rightarrow> 'v node) \<Rightarrow> (addr \<Rightarrow> 'v node)" where
  "detach_in nm a h = h(a := (h a)\<lparr>children := filter (\<lambda>c. name (h c) \<noteq> nm) (children (h a))\<rparr>)"

definition find_parent_and_remove :: "'v hierarchy \<Rightarrow> string \<Rightarrow> 'v hierarchy" where
  "find_parent_and_remove s nm = s\<lparr>store := fold (detach_in nm) (map snd (nodes s)) (store s)\<rparr>"

text \<open>
  The \<^verbatim>\<open>while\<close> loop of \<^verbatim>\<open>delete\<close> (lines 54-62). The list \<^verbatim>\<open>to_delete\<close> grows while
  it is scanned, so the loop need not stop on every store; \<open>None\<close> is a run that never
  leaves the loop.
\<close>

partial_function (option) collect ::
  "'v hierarchy \<Rightarrow> string list \<Rightarrow> nat \<Rightarrow> string list option" where
  "collect s to_delete i =
     (if i < length to_delete then
        (case map_of (nodes s) (to_delete ! i) of
           Some a \<Rightarrow>
             collect s (to_delete @ map (\<lambda>c. name (store s c)) (children (store s a))) (Suc i)
         | None \<Rightarrow> collect s to_delete (Suc i))
      else Some to_delete)"

declare collect.simps [code]

definition del_if_present :: "string \<Rightarrow> (string \<times> addr) list \<Rightarrow> (string \<times> addr) list" where
  "del_if_present n d = (if map_of d n \<noteq> None then dict_del n d else d)"

text \<open>\<^verbatim>\<open>DepartmentHierarchy.delete\<close> (lines 45-66).\<close>

definition delete :: "'v hierarchy \<Rightarrow> string \<Rightarrow> (bool \<times> 'v hierarchy) option" where
  "delete s nm =
     (if map_of (nodes s) nm = None then Some (False, s)
      else
        let s1 = (case root s of
                    Some r \<Rightarrow> if name (store s r) = nm then s\<lparr>root := None\<rparr> else s
                  | None \<Rightarrow> s);
            s2 = find_parent_and_remove s1 nm
        in case collect s2 [nm] 0 of
             None \<Rightarrow> None
           | Some to_delete \<Rightarrow> Some (True, s2\<lparr>nodes := fold del_if_present to_delete (nodes s2)\<rparr>))"

text \<open>
  \<^verbatim>\<open>DepartmentHierarchy.edit\<close> (lines 68-100). The built-in conversions \<^verbatim>\<open>int\<close> and
  \<^verbatim>\<open>float\<close> belong to Python, not to the program: they are parameters, returning either
  the exception they raise or the converted value. An exception leaves \<^verbatim>\<open>edit\<close> at the
  statement that raised it, with every earlier assignment done.
\<close>

datatype py_exn = ValueError | TypeError | OverflowError

datatype outcome = Returned bool | Raised py_exn

record 'v builtins =
  py_int :: "'v \<Rightarrow> py_exn + 'v"
  py_float :: "'v \<Rightarrow> py_exn + 'v"

fun coerce_into ::
  "('v \<Rightarrow> py_exn + 'v) \<Rightarrow> ('v \<Rightarrow> 'v node \<Rightarrow> 'v node) \<Rightarrow> addr \<Rightarrow> 'v option \<Rightarrow> 'v hierarchy
    \<Rightarrow> (py_exn \<times> 'v hierarchy) + 'v hierarchy" where
  "coerce_into conv setter a None s = Inr s"
| "coerce_into conv setter a (Some v) s =
     (case conv v of Inl e \<Rightarrow> Inl (e, s) | Inr w \<Rightarrow> Inr (upd_node s a (setter w)))"

text \<open>Lines 86-89: the pass over all child lists that rewrites the old name.\<close>

definition fix_ref :: "string \<Rightarrow> string \<Rightarrow> addr \<Rightarrow> (addr \<Rightarrow> 'v node) \<Rightarrow> (addr \<Rightarrow> 'v node)" where
  "fix_ref old new c h = (if name (h c) = old then h(c := (h c)\<lparr>name := new\<rparr>) else h)"

definition fix_refs :: "string \<Rightarrow> string \<Rightarrow> addr \<Rightarrow> (addr \<Rightarrow> 'v node) \<Rightarrow> (addr \<Rightarrow> 'v node)" where
  "fix_refs old new n h = fold (fix_ref old new) (children (h n)) h"

text \<open>
  Lines 77-89. \<^verbatim>\<open>if new_name and new_name != name\<close>: an absent or empty new name
  skips the branch. \<open>None\<close> is the early \<^verbatim>\<open>return False\<close> of line 80.
\<close>

definition rename :: "'v hierarchy \<Rightarrow> addr \<Rightarrow> string \<Rightarrow> string option \<Rightarrow> 'v hierarchy option" where
  "rename s a nm new_name =
     (case new_name of
        None \<Rightarrow> Some s
      | Some nn \<Rightarrow>
          if nn \<noteq> [] \<and> nn \<noteq> nm then
            (if map_of (nodes s) nn \<noteq> None then None
             else
               let s1 = upd_node s a (\<lambda>n. n\<lparr>name := nn\<rparr>);
                   s2 = s1\<lparr>nodes := dict_del nm (dict_set nn a (nodes s1))\<rparr>
               in Some (s2\<lparr>store := fold (fix_refs nm nn) (map snd (nodes s2)) (store s2)\<rparr>))
          else Some s)"

text \<open>Lines 90-99.\<close>

definition reparent :: "'v hierarchy \<Rightarrow> addr \<Rightarrow> string option \<Rightarrow> 'v hierarchy" where
  "reparent s a parent =
     (case parent of
        None \<Rightarrow> s
      | Some p \<Rightarrow>
          let s1 = find_parent_and_remove s (name (store s a))
          in if p = [] \<or> map_of (nodes s1) p = None
             then (if root s1 = None then s1\<lparr>root := Some a\<rparr> else s1)
             else upd_node s1 (the (map_of (nodes s1) p)) (\<lambda>n. n\<lparr>children := children n @ [a]\<rparr>))"

definition edit ::
  "'v builtins \<Rightarrow> 'v hierarchy \<Rightarrow> string \<Rightarrow> string option \<Rightarrow> 'v option \<Rightarrow> 'v option \<Rightarrow> 'v option
    \<Rightarrow> 'v option \<Rightarrow> string option \<Rightarrow> outcome \<times> 'v hierarchy" where
  "edit B s nm new_name hv ev bv pv parent =
     (case map_of (nodes s) nm of
        None \<Rightarrow> (Returned False, s)
      | Some a \<Rightarrow>
          let s1 = (case hv of None \<Rightarrow> s | Some v \<Rightarrow> upd_node s a (\<lambda>n. n\<lparr>head := v\<rparr>))
          in case coerce_into (py_int B) (\<lambda>w n. n\<lparr>employees := w\<rparr>) a ev s1 of
               Inl (e, s') \<Rightarrow> (Raised e, s')
             | Inr s2 \<Rightarrow>
          (case coerce_into (py_float B) (\<lambda>w n. n\<lparr>budget := w\<rparr>) a bv s2 of
               Inl (e, s') \<Rightarrow> (Raised e, s')
             | Inr s3 \<Rightarrow>
          (case coerce_into (py_float B) (\<lambda>w n. n\<lparr>perf := w\<rparr>) a pv s3 of
               Inl (e, s') \<Rightarrow> (Raised e, s')
             | Inr s4 \<Rightarrow>
          (case rename s4 a nm new_name of
               None \<Rightarrow> (Returned False, s4)
             | Some s5 \<Rightarrow> (Returned True, reparent s5 a parent)))))"

text \<open>
  \<^verbatim>\<open>to_dict\<close> (lines 102-114) recurses once per level of the tree. Python bounds the
  depth of recursion and raises \<^verbatim>\<open>RecursionError\<close> beyond it; the first argument is the
  depth still available, and \<open>None\<close> is the call that ran out of it (which is what
  happens on every store whose child links form a cycle below the root).
\<close>

datatype 'v nested = Empty | Dict string 'v 'v 'v 'v "'v nested list"

fun to_dict_node :: "nat \<Rightarrow> (addr \<Rightarrow> 'v node) \<Rightarrow> addr \<Rightarrow> 'v nested option" where
  "to_dict_node 0 h a = None"
| "to_dict_node (Suc n) h a =
     map_option (Dict (name (h a)) (head (h a)) (employees (h a)) (budget (h a)) (perf (h a)))
       (those (map (to_dict_node n h) (children (h a))))"

definition to_dict :: "nat \<Rightarrow> 'v hierarchy \<Rightarrow> 'v nested option" where
  "to_dict n s = (case root s of None \<Rightarrow> Some Empty | Some r \<Rightarrow> to_dict_node n (store s) r)"

text \<open>\<^verbatim>\<open>build\<close> inside \<^verbatim>\<open>load_data\<close> (lines 188-199), run on a hierarchy.\<close>

fun build :: "'v nested \<Rightarrow> string option \<Rightarrow> 'v hierarchy \<Rightarrow> 'v hierarchy" where
  "build Empty parent s = s"
| "build (Dict nm hv ev bv pv cs) parent s =
     fold (\<lambda>c. build c (Some nm)) cs (snd (add s nm parent hv ev bv pv))"

text \<open>
  Python values for running examples: integers, floats and strings. The conversions
  \<^verbatim>\<open>int\<close> and \<^verbatim>\<open>float\<close> themselves are not modelled. The examples call \<^verbatim>\<open>edit\<close> with no
  numeric argument, so that neither conversion is ever applied; \<open>sample_builtins\<close>
  stands for the two built-ins there, and nothing is assumed about it.
\<close>

datatype pyval = PyInt int | PyFloat real | PyStr string

definition sample_builtins :: "pyval builtins" where
  "sample_builtins = \<lparr>py_int = undefined, py_float = undefined\<rparr>"

text \<open>\<^verbatim>\<open>add(name, parent)\<close> with the default attributes of line 23.\<close>

definition add_default :: "pyval hierarchy \<Rightarrow> string \<Rightarrow> string option \<Rightarrow> bool \<times> pyval hierarchy" where
  "add_default s nm parent = add s nm parent (PyStr []) (PyInt 0) (PyInt 0) (PyInt 0)"

section \<open>The priority heap\<close>

text \<open>
  \<^verbatim>\<open>DepartmentHeap\<close> keeps a Python list of pairs \<^verbatim>\<open>(priority, name)\<close> and hands it to the
  standard module \<^verbatim>\<open>heapq\<close>. The functions below follow \<^verbatim>\<open>heapq.py\<close>:
  \<^verbatim>\<open>_siftdown\<close> moves the item at \<^verbatim>\<open>pos\<close> towards the front, \<^verbatim>\<open>_siftup\<close> moves the smaller
  child up until a leaf is reached and then sifts the item down again. Tuples compare
  lexicographically, strings by their characters: the order of \<open>int \<times> string\<close>.
\<close>

function siftdown_loop :: "'a::linorder list \<Rightarrow> 'a \<Rightarrow> nat \<Rightarrow> nat \<Rightarrow> 'a list \<times> nat" where
  "siftdown_loop heap newitem startpos pos =
     (if pos > startpos then
        (let parentpos = (pos - 1) div 2; parent = heap ! parentpos
         in if newitem < parent
            then siftdown_loop (heap[pos := parent]) newitem startpos parentpos
            else (heap, pos))
      else (heap, pos))"
  by pat_completeness auto
termination
  by (relation "measure (\<lambda>(heap, newitem, startpos, pos). pos)") auto

definition siftdown :: "'a::linorder list \<Rightarrow> nat \<Rightarrow> nat \<Rightarrow> 'a list" where
  "siftdown heap startpos pos =
     (let newitem = heap ! pos;
          (heap', pos') = siftdown_loop heap newitem startpos pos
      in heap'[pos' := newitem])"

function siftup_loop :: "'a::linorder list \<Rightarrow> nat \<Rightarrow> nat \<Rightarrow> 'a list \<times> nat" where
  "siftup_loop heap pos childpos =
     (if childpos < length heap then
        (let rightpos = childpos + 1;
             childpos' = (if rightpos < length heap \<and> \<not> heap ! childpos < heap ! rightpos
                          then rightpos else childpos)
         in siftup_loop (heap[pos := heap ! childpos']) childpos' (2 * childpos' + 1))
      else (heap, pos))"
  by pat_completeness auto
termination
  by (relation "measure (\<lambda>(heap, pos, childpos). length heap - childpos)") auto

definition siftup :: "'a::linorder list \<Rightarrow> nat \<Rightarrow> 'a list" where
  "siftup heap pos =
     (let newitem = heap ! pos;
          (heap', pos') = siftup_loop heap pos (2 * pos + 1)
      in siftdown (heap'[pos' := newitem]) pos pos')"

definition heappush :: "'a::linorder list \<Rightarrow> 'a \<Rightarrow> 'a list" where
  "heappush heap item = siftdown (heap @ [item]) 0 (length heap)"

definition heapify :: "'a::linorder list \<Rightarrow> 'a list" where
  "heapify x = fold (\<lambda>i h. siftup h i) (rev [0..<length x div 2]) x"

text \<open>\<^verbatim>\<open>DepartmentHeap\<close> (lines 130-146).\<close>

type_synonym department_heap = "(int \<times> string) list"

definition heap_add :: "department_heap \<Rightarrow> int \<Rightarrow> string \<Rightarrow> department_heap" where
  "heap_add heap priority nm = heappush heap (priority, nm)"

definition heap_remove :: "department_heap \<Rightarrow> string \<Rightarrow> department_heap" where
  "heap_remove heap nm = heapify (filter (\<lambda>(p, n). n \<noteq> nm) heap)"

definition heap_edit_priority :: "department_heap \<Rightarrow> string \<Rightarrow> int \<Rightarrow> department_heap" where
  "heap_edit_priority heap nm new_priority = heap_add (heap_remove heap nm) new_priority nm"

definition heap_get_all :: "department_heap \<Rightarrow> department_heap" where
  "heap_get_all heap = sort heap"

text \<open>Sequences of calls on a heap, and the pairs a sequence of calls leaves stored.\<close>

datatype heap_op = HAdd int string | HRemove string | HSetPriority string int

fun heap_step :: "heap_op \<Rightarrow> department_heap \<Rightarrow> department_heap" where
  "heap_step (HAdd p n) heap = heap_add heap p n"
| "heap_step (HRemove n) heap = heap_remove heap n"
| "heap_step (HSetPriority n p) heap = heap_edit_priority heap n p"

definition heap_run :: "heap_op list \<Rightarrow> department_heap" where
  "heap_run ops = fold heap_step ops []"

fun stored_step :: "heap_op \<Rightarrow> (int \<times> string) multiset \<Rightarrow> (int \<times> string) multiset" where
  "stored_step (HAdd p n) M = add_mset (p, n) M"
| "stored_step (HRemove n) M = filter_mset (\<lambda>(q, m). m \<noteq> n) M"
| "stored_step (HSetPriority n p) M = add_mset (p, n) (filter_mset (\<lambda>(q, m). m \<noteq> n) M)"

definition stored :: "heap_op list \<Rightarrow> (int \<times> string) multiset" where
  "stored ops = fold stored_step ops {#}"

text \<open>Ascending by priority, ties broken by name.\<close>

fun by_priority_then_name :: "int \<times> string \<Rightarrow> int \<times> string \<Rightarrow> bool" where
  "by_priority_then_name (p, n) (q, m) = (p < q \<or> (p = q \<and> n \<le> m))"

section \<open>Runs, chains of child links and well-formed hierarchies\<close>

text \<open>
  A sequence of \<^verbatim>\<open>add\<close> and \<^verbatim>\<open>delete\<close> calls, run from a given hierarchy. The results
  of the single calls are dropped, as a caller that ignores them would; \<open>None\<close> is a
  run in which some \<^verbatim>\<open>delete\<close> never returns.
\<close>

datatype 'v tree_op = Add string "string option" 'v 'v 'v 'v | Delete string

fun run :: "'v tree_op list \<Rightarrow> 'v hierarchy \<Rightarrow> 'v hierarchy option" where
  "run [] s = Some s"
| "run (Add nm parent hv ev bv pv # ops) s = run ops (snd (add s nm parent hv ev bv pv))"
| "run (Delete nm # ops) s = (case delete s nm of None \<Rightarrow> None | Some r \<Rightarrow> run ops (snd r))"

text \<open>
  A chain of child links is a non-empty list of objects in which each is a child of the
  one before; the descendants of an object are the objects a chain leads to (the object
  itself among them).
\<close>

fun is_chain :: "(addr \<Rightarrow> 'v node) \<Rightarrow> addr list \<Rightarrow> bool" where
  "is_chain h [] = False"
| "is_chain h [a] = True"
| "is_chain h (a # b # bs) = (b \<in> set (children (h a)) \<and> is_chain h (b # bs))"

definition child_rel :: "(addr \<Rightarrow> 'v node) \<Rightarrow> (addr \<times> addr) set" where
  "child_rel h = {(p, c). c \<in> set (children (h p))}"

definition descendants :: "(addr \<Rightarrow> 'v node) \<Rightarrow> addr \<Rightarrow> addr set" where
  "descendants h a = (child_rel h)\<^sup>* `` {a}"

text \<open>
  What the operations keep true of the dictionary and the objects it holds: keys are
  distinct and so are the objects, every object is filed under its own name and was
  allocated, the children of a filed object are filed, an object with the empty name
  has no children, and no object occurs twice among the children of the filed objects
  (neither twice in one list nor in the lists of two parents).
\<close>

definition filed :: "'v hierarchy \<Rightarrow> addr set" where
  "filed s = snd ` set (nodes s)"

definition all_children :: "'v hierarchy \<Rightarrow> addr list" where
  "all_children s = concat (map (\<lambda>a. children (store s a)) (map snd (nodes s)))"

definition well_formed :: "'v hierarchy \<Rightarrow> bool" where
  "well_formed s \<longleftrightarrow>
     distinct (map fst (nodes s)) \<and> distinct (map snd (nodes s)) \<and>
     (\<forall>e \<in> set (nodes s).
        name (store s (snd e)) = fst e \<and> snd e < fresh s \<and>
        set (children (store s (snd e))) \<subseteq> filed s \<and>
        (fst e = [] \<longrightarrow> children (store s (snd e)) = [])) \<and>
     distinct (all_children s)"

text \<open>The root, if there is one, is a filed object that is nobody's child.\<close>

definition attached_root :: "'v hierarchy \<Rightarrow> bool" where
  "attached_root s \<longleftrightarrow>
     (case root s of
        None \<Rightarrow> True
      | Some r \<Rightarrow> r \<in> filed s \<and> r \<notin> set (all_children s))"

text \<open>The root, if there is one, is an object of the dictionary.\<close>

definition root_filed :: "'v hierarchy \<Rightarrow> bool" where
  "root_filed s \<longleftrightarrow> (case root s of None \<Rightarrow> True | Some r \<Rightarrow> r \<in> filed s)"

definition tree_inv :: "'v hierarchy \<Rightarrow> bool" where
  "tree_inv s \<longleftrightarrow> well_formed s \<and> attached_root s"

text \<open>
  Objects are numbered in the order of their allocation. \<open>ordered s\<close> says that every
  child of a filed object was allocated after it.
\<close>

definition ordered :: "'v hierarchy \<Rightarrow> bool" where
  "ordered s \<longleftrightarrow> (\<forall>a \<in> filed s. \<forall>c \<in> set (children (store s a)). a < c)"

text \<open>
  The guard of lines 29 and 30 makes a new node that names no parent the root only when
  there is no root; otherwise the node is registered and attached to nothing.
  \<open>orphans ops s\<close> collects the objects that the run of \<open>ops\<close> from \<open>s\<close> creates in
  this second way.
\<close>

fun orphans :: "'v tree_op list \<Rightarrow> 'v hierarchy \<Rightarrow> addr set" where
  "orphans [] s = {}"
| "orphans (Add nm parent hv ev bv pv # ops) s =
     (if map_of (nodes s) nm = None \<and> (parent = None \<or> parent = Some []) \<and> root s \<noteq> None
      then {fresh s} else {}) \<union> orphans ops (snd (add s nm parent hv ev bv pv))"
| "orphans (Delete nm # ops) s =
     (case delete s nm of None \<Rightarrow> {} | Some r \<Rightarrow> orphans ops (snd r))"

text \<open>
  \<open>parents_known ops s\<close>: along the run of \<open>ops\<close> from \<open>s\<close>, every \<^verbatim>\<open>add\<close> either
  names no parent (\<^verbatim>\<open>None\<close> or the empty string), or fails at line 24 because its name is
  a key already, or names a parent that is a key of the dictionary when the call is made.
\<close>

fun parents_known :: "'v tree_op list \<Rightarrow> 'v hierarchy \<Rightarrow> bool" where
  "parents_known [] s = True"
| "parents_known (Add nm parent hv ev bv pv # ops) s =
     ((parent = None \<or> parent = Some [] \<or> map_of (nodes s) nm \<noteq> None \<or>
       map_of (nodes s) (the parent) \<noteq> None) \<and>
      parents_known ops (snd (add s nm parent hv ev bv pv)))"
| "parents_known (Delete nm # ops) s =
     (case delete s nm of None \<Rightarrow> True | Some r \<Rightarrow> parents_known ops (snd r))"

text \<open>
  \<open>covered s U\<close>: every filed object is somebody's child, the root, or an object of
  \<open>U\<close>; the objects of \<open>U\<close> were allocated and, as long as they are filed, are nobody's
  child.
\<close>

definition covered :: "'v hierarchy \<Rightarrow> addr set \<Rightarrow> bool" where
  "covered s U \<longleftrightarrow>
     (\<forall>a \<in> filed s. a \<in> set (all_children s) \<or> root s = Some a \<or> a \<in> U) \<and>
     (\<forall>a \<in> U. a < fresh s \<and> (a \<in> filed s \<longrightarrow> a \<notin> set (all_children s)))"

text \<open>Names of a nested structure in the order of the traversal, and a renaming in it.\<close>

fun names_of :: "'v nested \<Rightarrow> string list" where
  "names_of Empty = []"
| "names_of (Dict nm hv ev bv pv cs) = nm # concat (map names_of cs)"

fun rename_nested :: "string \<Rightarrow> string \<Rightarrow> 'v nested \<Rightarrow> 'v nested" where
  "rename_nested old new Empty = Empty"
| "rename_nested old new (Dict nm hv ev bv pv cs) =
     Dict (if nm = old then new else nm) hv ev bv pv (map (rename_nested old new) cs)"

text \<open>
  Nested structures as \<^verbatim>\<open>to_dict\<close> produces them: \<open>fits n d\<close> says that \<open>d\<close> has at most
  \<open>n\<close> levels; \<open>proper d\<close> that \<open>d\<close> is a node all of whose descendants are nodes, with no
  children below a node of the empty name.
\<close>

fun fits :: "nat \<Rightarrow> 'v nested \<Rightarrow> bool" where
  "fits 0 d = False"
| "fits (Suc n) Empty = False"
| "fits (Suc n) (Dict nm hv ev bv pv cs) = list_all (fits n) cs"

fun proper :: "'v nested \<Rightarrow> bool" where
  "proper Empty = False"
| "proper (Dict nm hv ev bv pv cs) = ((nm = [] \<longrightarrow> cs = []) \<and> list_all proper cs)"

text \<open>
  \<open>grafted s s' pa d\<close>: the hierarchy \<open>s'\<close> is \<open>s\<close> with the tree \<open>d\<close> built in newly
  allocated objects, the first of them (the root of \<open>d\<close>) appended to the children of the
  object \<open>pa\<close>, and nothing else changed. \<open>grafted_all\<close> is the same for a list of trees.
\<close>

definition grafted :: "'v hierarchy \<Rightarrow> 'v hierarchy \<Rightarrow> addr \<Rightarrow> 'v nested \<Rightarrow> bool" where
  "grafted s s' pa d \<longleftrightarrow>
     fresh s < fresh s' \<and> root s' = root s \<and>
     (\<forall>b. b < fresh s \<longrightarrow> b \<noteq> pa \<longrightarrow> store s' b = store s b) \<and>
     store s' pa = (store s pa)\<lparr>children := children (store s pa) @ [fresh s]\<rparr> \<and>
     (\<forall>k. k \<notin> set (names_of d) \<longrightarrow> map_of (nodes s') k = map_of (nodes s) k) \<and>
     (\<forall>b c. fresh s \<le> b \<longrightarrow> b < fresh s' \<longrightarrow> c \<in> set (children (store s' b)) \<longrightarrow>
            fresh s \<le> c \<and> c < fresh s') \<and>
     (\<forall>n. fits n d \<longrightarrow> to_dict_node n (store s') (fresh s) = Some d)"

definition grafted_all :: "'v hierarchy \<Rightarrow> 'v hierarchy \<Rightarrow> addr \<Rightarrow> 'v nested list \<Rightarrow> bool" where
  "grafted_all s s' pa ds \<longleftrightarrow>
     fresh s \<le> fresh s' \<and> root s' = root s \<and>
     (\<forall>b. b < fresh s \<longrightarrow> b \<noteq> pa \<longrightarrow> store s' b = store s b) \<and>
     (\<exists>ks. store s' pa = (store s pa)\<lparr>children := children (store s pa) @ ks\<rparr> \<and>
           (\<forall>k \<in> set ks. fresh s \<le> k \<and> k < fresh s') \<and>
           (\<forall>n. list_all (fits n) ds \<longrightarrow> map (to_dict_node n (store s')) ks = map Some ds)) \<and>
     (\<forall>k. k \<notin> set (concat (map names_of ds)) \<longrightarrow> map_of (nodes s') k = map_of (nodes s) k) \<and>
     (\<forall>b c. fresh s \<le> b \<longrightarrow> b < fresh s' \<longrightarrow> c \<in> set (children (store s' b)) \<longrightarrow>
            fresh s \<le> c \<and> c < fresh s')"

text \<open>\<^verbatim>\<open>load_data\<close> on a fresh hierarchy: \<^verbatim>\<open>build(data.get("hierarchy"))\<close>.\<close>

definition reconstruct :: "'v nested \<Rightarrow> 'v hierarchy" where
  "reconstruct d = build d None init"

text \<open>The hierarchy after lines 26-27 of \<^verbatim>\<open>add\<close>, for a name that is not yet a key.\<close>

definition with_new_node :: "'v hierarchy \<Rightarrow> string \<Rightarrow> 'v \<Rightarrow> 'v \<Rightarrow> 'v \<Rightarrow> 'v \<Rightarrow> 'v hierarchy" where
  "with_new_node s nm hv ev bv pv =
     s\<lparr>store := (store s)(fresh s := \<lparr>name = nm, head = hv, employees = ev, budget = bv,
                                      perf = pv, children = []\<rparr>),
       fresh := Suc (fresh s), nodes := nodes s @ [(nm, fresh s)]\<rparr>"

text \<open>Lines 49-50 of \<^verbatim>\<open>delete\<close>: the root after the call.\<close>

definition root_after_delete :: "'v hierarchy \<Rightarrow> string \<Rightarrow> addr option" where
  "root_after_delete s X =
     (case root s of None \<Rightarrow> None | Some r \<Rightarrow> if name (store s r) = X then None else Some r)"

section \<open>Example hierarchies\<close>

definition ex_A :: "pyval hierarchy" where
  "ex_A = snd (add_default init ''A'' None)"

definition ex_A_B :: "pyval hierarchy" where
  "ex_A_B = snd (add_default ex_A ''B'' None)"

definition ex_AB :: "pyval hierarchy" where
  "ex_AB = snd (add_default ex_A ''B'' (Some ''A''))"

definition ex_A_B_C :: "pyval hierarchy" where
  "ex_A_B_C = snd (add_default ex_A_B ''C'' None)"

definition ex_A_BC :: "pyval hierarchy" where
  "ex_A_BC = snd (add_default ex_A_B ''C'' (Some ''B''))"

definition ex_A_E :: "pyval hierarchy" where
  "ex_A_E = snd (add_default ex_A [] None)"

section \<open>Properties of the model\<close>

subsection \<open>The priority heap\<close>

text \<open>
  Sifting moves a hole through the list and closes it with the item taken out at the
  start; filling the hole at any moment gives a permutation of the list.
\<close>

declare siftdown_loop.simps [simp del] siftup_loop.simps [simp del]

lemma siftdown_loop_mset:
  "pos < length heap \<Longrightarrow>
   snd (siftdown_loop heap x startpos pos) < length (fst (siftdown_loop heap x startpos pos)) \<and>
   mset ((fst (siftdown_loop heap x startpos pos))[snd (siftdown_loop heap x startpos pos) := x])
     = mset (heap[pos := x])"
proof (induction heap x startpos pos rule: siftdown_loop.induct)
  case (1 heap x startpos pos)
  let ?pp = "(pos - 1) div 2"
  show ?case
  proof (cases "pos > startpos \<and> x < heap ! ?pp")
    case False
    then show ?thesis using "1.prems" by (auto simp: siftdown_loop.simps [of heap x startpos pos] Let_def)
  next
    case True
    then have pp: "?pp < pos" by arith
    with "1.prems" have ppl: "?pp < length (heap[pos := heap ! ?pp])" by simp
    from True have unf: "siftdown_loop heap x startpos pos
        = siftdown_loop (heap[pos := heap ! ?pp]) x startpos ?pp"
      by (simp add: siftdown_loop.simps [of heap x startpos pos] Let_def)
    from "1.IH" [OF _ refl refl _ ppl] True
    have IH: "snd (siftdown_loop (heap[pos := heap ! ?pp]) x startpos ?pp)
                < length (fst (siftdown_loop (heap[pos := heap ! ?pp]) x startpos ?pp)) \<and>
        mset ((fst (siftdown_loop (heap[pos := heap ! ?pp]) x startpos ?pp))
                 [snd (siftdown_loop (heap[pos := heap ! ?pp]) x startpos ?pp) := x])
          = mset (heap[pos := heap ! ?pp, ?pp := x])" by simp
    let ?l = "heap[pos := x]"
    have "heap[pos := heap ! ?pp, ?pp := x] = ?l[pos := ?l ! ?pp, ?pp := ?l ! pos]"
      using pp "1.prems" by simp
    also have "mset \<dots> = mset ?l"
      by (rule mset_swap) (use pp "1.prems" in simp_all)
    finally show ?thesis using IH unf by simp
  qed
qed

lemma mset_siftdown: "pos < length heap \<Longrightarrow> mset (siftdown heap startpos pos) = mset heap"
  using siftdown_loop_mset [of pos heap "heap ! pos" startpos]
  by (simp add: siftdown_def Let_def split_beta)

lemma length_siftdown_loop:
  "length (fst (siftdown_loop heap x startpos pos)) = length heap"
proof (induction heap x startpos pos rule: siftdown_loop.induct)
  case (1 heap x startpos pos)
  show ?case using 1 by (simp add: siftdown_loop.simps [of heap x startpos pos] Let_def)
qed

lemma length_siftdown: "length (siftdown heap startpos pos) = length heap"
  by (simp add: siftdown_def Let_def split_beta length_siftdown_loop)

lemma siftup_loop_mset:
  "pos < length heap \<Longrightarrow>
   snd (siftup_loop heap pos childpos) < length (fst (siftup_loop heap pos childpos)) \<and>
   length (fst (siftup_loop heap pos childpos)) = length heap \<and>
   mset ((fst (siftup_loop heap pos childpos))[snd (siftup_loop heap pos childpos) := x])
     = mset (heap[pos := x])"
proof (induction heap pos childpos rule: siftup_loop.induct)
  case (1 heap pos childpos)
  show ?case
  proof (cases "childpos < length heap")
    case False
    then show ?thesis using "1.prems" by (simp add: siftup_loop.simps [of heap pos childpos])
  next
    case True
    define c where "c = (if childpos + 1 < length heap \<and> \<not> heap ! childpos < heap ! (childpos + 1)
                          then childpos + 1 else childpos)"
    have cl: "c < length heap" using True by (simp add: c_def)
    have unf: "siftup_loop heap pos childpos = siftup_loop (heap[pos := heap ! c]) c (2 * c + 1)"
      using True by (simp add: siftup_loop.simps [of heap pos childpos] Let_def c_def)
    have cl': "c < length (heap[pos := heap ! c])" using cl by simp
    note IH = "1.IH" [OF True refl, of c, unfolded c_def [symmetric], OF refl cl']
    let ?l = "heap[pos := x]"
    show ?thesis
    proof (cases "c = pos")
      case True
      then show ?thesis using IH unf cl by simp
    next
      case False
      have "heap[pos := heap ! c, c := x] = ?l[pos := ?l ! c, c := ?l ! pos]"
        using False cl "1.prems" by simp
      also have "mset \<dots> = mset ?l"
        by (rule mset_swap) (use cl "1.prems" in simp_all)
      finally show ?thesis using IH unf by simp
    qed
  qed
qed

lemma mset_siftup: "pos < length heap \<Longrightarrow> mset (siftup heap pos) = mset heap"
  using siftup_loop_mset [of pos heap "2 * pos + 1" "heap ! pos"]
  by (simp add: siftup_def Let_def split_beta mset_siftdown)

lemma length_siftup: "pos < length heap \<Longrightarrow> length (siftup heap pos) = length heap"
  using siftup_loop_mset [of pos heap "2 * pos + 1" "heap ! pos"]
  by (simp add: siftup_def Let_def split_beta length_siftdown)

lemma fold_siftup:
  "\<forall>i \<in> set is. i < length h \<Longrightarrow>
   mset (fold (\<lambda>i h. siftup h i) is h) = mset h \<and> length (fold (\<lambda>i h. siftup h i) is h) = length h"
  by (induction "is" arbitrary: h) (simp_all add: mset_siftup length_siftup)

lemma mset_heapify: "mset (heapify x) = mset x"
proof -
  have "\<forall>i \<in> set (rev [0..<length x div 2]). i < length x" by auto
  from fold_siftup [OF this] show ?thesis by (simp add: heapify_def)
qed

lemma mset_heappush: "mset (heappush heap item) = add_mset item (mset heap)"
  by (simp add: heappush_def mset_siftdown)

lemma mset_heap_step: "mset (heap_step opn heap) = stored_step opn (mset heap)"
  by (cases opn)
     (simp_all add: heap_add_def heap_remove_def heap_edit_priority_def mset_heappush mset_heapify)

lemma mset_fold_heap_step: "mset (fold heap_step ops heap) = fold stored_step ops (mset heap)"
  by (induction ops arbitrary: heap) (simp_all add: mset_heap_step)

lemma by_priority_then_name_le: "by_priority_then_name x y \<longleftrightarrow> x \<le> y"
  by (cases x; cases y) (auto simp: less_eq_prod_def)

text \<open>
  Claim C7. After any sequence of \<^verbatim>\<open>add\<close>, \<^verbatim>\<open>remove\<close> and \<^verbatim>\<open>edit_priority\<close> calls,
  \<^verbatim>\<open>get_all\<close> returns exactly the pairs the calls left stored, ascending by priority
  and, among equal priorities, by name. After \<^verbatim>\<open>add(5, "X")\<close> and \<^verbatim>\<open>add(2, "Y")\<close> it
  returns \<^verbatim>\<open>[(2, "Y"), (5, "X")]\<close>.
\<close>

theorem get_all_sorted:
  "sorted_wrt by_priority_then_name (heap_get_all (heap_run ops)) \<and>
   mset (heap_get_all (heap_run ops)) = stored ops \<and>
   heap_get_all (heap_run [HAdd 5 ''X'', HAdd 2 ''Y'']) = [(2, ''Y''), (5, ''X'')]"
proof (intro conjI)
  have "sorted (sort (heap_run ops))" by simp
  then show "sorted_wrt by_priority_then_name (heap_get_all (heap_run ops))"
    unfolding heap_get_all_def by (simp add: by_priority_then_name_le [abs_def])
  show "mset (heap_get_all (heap_run ops)) = stored ops"
    by (simp add: heap_get_all_def heap_run_def stored_def mset_fold_heap_step)
  show "heap_get_all (heap_run [HAdd 5 ''X'', HAdd 2 ''Y'']) = [(2, ''Y''), (5, ''X'')]"
    by (simp add: heap_get_all_def heap_run_def heap_add_def heappush_def siftdown_def
        siftdown_loop.simps less_prod_def less_eq_prod_def Let_def)
qed

subsection \<open>Detaching, and calls that fail\<close>

lemma fold_detach_in:
  "fold (detach_in nm) as h =
     (\<lambda>b. if b \<in> set as
          then (h b)\<lparr>children := filter (\<lambda>c. name (h c) \<noteq> nm) (children (h b))\<rparr>
          else h b)"
proof (induction as arbitrary: h)
  case Nil
  show ?case by simp
next
  case (Cons a as)
  have nm: "\<And>c. name (detach_in nm a h c) = name (h c)"
    by (simp add: detach_in_def)
  show ?case
    by (auto simp: Cons.IH nm fun_eq_iff) (auto simp: detach_in_def)
qed

lemma find_parent_and_remove_simps [simp]:
  "nodes (find_parent_and_remove s nm) = nodes s"
  "root (find_parent_and_remove s nm) = root s"
  "fresh (find_parent_and_remove s nm) = fresh s"
  by (simp_all add: find_parent_and_remove_def)

lemma find_parent_and_remove_store:
  "store (find_parent_and_remove s nm) b =
     (if b \<in> snd ` set (nodes s)
      then (store s b)\<lparr>children := filter (\<lambda>c. name (store s c) \<noteq> nm) (children (store s b))\<rparr>
      else store s b)"
  by (simp add: find_parent_and_remove_def fold_detach_in)

lemma add_exists_unchanged: "map_of (nodes s) nm \<noteq> None \<Longrightarrow> add s nm parent hv ev bv pv = (False, s)"
  by (simp add: add_def)

lemma delete_absent_unchanged: "map_of (nodes s) nm = None \<Longrightarrow> delete s nm = Some (False, s)"
  by (simp add: delete_def)

lemma edit_absent_unchanged:
  "map_of (nodes s) nm = None \<Longrightarrow> edit B s nm new_name hv ev bv pv parent = (Returned False, s)"
  by (simp add: edit_def)

lemmas example_defs =
  ex_A_def ex_A_B_def ex_AB_def ex_A_B_C_def ex_A_E_def add_default_def add_def init_def Let_def dict_set_def
  dict_del_def upd_node_def

text \<open>
  Claim C1. \<^verbatim>\<open>add\<close> on a name that exists, \<^verbatim>\<open>delete\<close> and \<^verbatim>\<open>edit\<close> on a name that
  does not, return \<^verbatim>\<open>False\<close> before they touch anything (the three lemmas above). The
  name-conflict exit of \<^verbatim>\<open>edit\<close> comes after the attribute assignments: with
  departments A and B, \<^verbatim>\<open>edit("A", new_name="B", head="x")\<close> returns \<^verbatim>\<open>False\<close> and
  leaves A with the head \<^verbatim>\<open>"x"\<close> instead of the \<^verbatim>\<open>""\<close> it had.
\<close>

theorem edit_name_conflict_keeps_head_update:
  "map_of (nodes ex_A_B) ''A'' = Some 0 \<and> map_of (nodes ex_A_B) ''B'' = Some 1 \<and>
   head (store ex_A_B 0) = PyStr [] \<and>
   fst (edit sample_builtins ex_A_B ''A'' (Some ''B'') (Some (PyStr ''x'')) None None None None)
     = Returned False \<and>
   head (store (snd (edit sample_builtins ex_A_B ''A'' (Some ''B'') (Some (PyStr ''x''))
                       None None None None)) 0) = PyStr ''x''"
  by (simp add: example_defs edit_def rename_def)

text \<open>
  Claim C9. An empty new name is treated as an omitted one, whatever the other
  arguments are; \<^verbatim>\<open>edit(X, new_name="")\<close> on a name of the dictionary returns \<^verbatim>\<open>True\<close>
  and changes nothing: the node keeps its name and the dictionary its keys.
\<close>

theorem edit_empty_new_name:
  "edit B s X (Some []) hv ev bv pv parent = edit B s X None hv ev bv pv parent \<and>
   (map_of (nodes s) X = Some a \<longrightarrow>
      edit B s X (Some []) None None None None None = (Returned True, s))"
proof -
  have r: "\<And>s a. rename s a X (Some []) = rename s a X None"
    by (simp add: rename_def)
  have "edit B s X (Some []) hv ev bv pv parent = edit B s X None hv ev bv pv parent"
    unfolding edit_def r ..
  then show ?thesis
    by (simp add: edit_def rename_def reparent_def)
qed

theorem edit_empty_new_name_witness:
  "map_of (nodes ex_AB) ''A'' = Some 0 \<and>
   edit sample_builtins ex_AB ''A'' (Some []) None None None None None = (Returned True, ex_AB)"
proof -
  have h: "map_of (nodes ex_AB) ''A'' = Some 0"
    by (simp add: example_defs)
  with edit_empty_new_name [of sample_builtins ex_AB "''A''" None None None None None 0]
  show ?thesis by blast
qed

subsection \<open>Well-formed hierarchies\<close>

lemma distinct_concat_map:
  "distinct xs \<Longrightarrow>
   distinct (concat (map f xs)) \<longleftrightarrow>
     (\<forall>x \<in> set xs. distinct (f x)) \<and>
     (\<forall>x \<in> set xs. \<forall>y \<in> set xs. x \<noteq> y \<longrightarrow> set (f x) \<inter> set (f y) = {})"
  by (induction xs) (auto, blast+)

lemma set_all_children: "set (all_children s) = (\<Union>a \<in> filed s. set (children (store s a)))"
  by (auto simp: all_children_def filed_def)

lemma distinct_all_children:
  "distinct (map snd (nodes s)) \<Longrightarrow>
   distinct (all_children s) \<longleftrightarrow>
     (\<forall>a \<in> filed s. distinct (children (store s a))) \<and>
     (\<forall>a \<in> filed s. \<forall>b \<in> filed s. a \<noteq> b \<longrightarrow>
        set (children (store s a)) \<inter> set (children (store s b)) = {})"
  unfolding all_children_def filed_def
  using distinct_concat_map [of "map snd (nodes s)" "\<lambda>a. children (store s a)"]
  by simp

lemma map_of_filed: "map_of (nodes s) k = Some a \<Longrightarrow> a \<in> filed s"
  by (force simp: filed_def dest: map_of_SomeD)

lemma wf_map_of: "well_formed s \<Longrightarrow> (k, a) \<in> set (nodes s) \<Longrightarrow> map_of (nodes s) k = Some a"
  by (simp add: well_formed_def)

lemma wf_name: "well_formed s \<Longrightarrow> map_of (nodes s) k = Some a \<Longrightarrow> name (store s a) = k"
  by (force simp: well_formed_def dest: map_of_SomeD)

lemma wf_filed_entry: "well_formed s \<Longrightarrow> a \<in> filed s \<Longrightarrow> (name (store s a), a) \<in> set (nodes s)"
  by (force simp: well_formed_def filed_def)

lemma wf_filed_map_of: "well_formed s \<Longrightarrow> a \<in> filed s \<Longrightarrow> map_of (nodes s) (name (store s a)) = Some a"
  by (blast intro: wf_map_of wf_filed_entry)

lemma wf_name_inj:
  assumes "well_formed s" "a \<in> filed s" "b \<in> filed s" "name (store s a) = name (store s b)"
  shows "a = b"
proof -
  have "map_of (nodes s) (name (store s a)) = Some a"
    using assms(1,2) by (rule wf_filed_map_of)
  moreover have "map_of (nodes s) (name (store s b)) = Some b"
    using assms(1,3) by (rule wf_filed_map_of)
  ultimately show ?thesis
    unfolding assms(4) by simp
qed

lemma wf_children_filed:
  "well_formed s \<Longrightarrow> a \<in> filed s \<Longrightarrow> c \<in> set (children (store s a)) \<Longrightarrow> c \<in> filed s"
  unfolding well_formed_def filed_def by force

lemma wf_unique_parent:
  "well_formed s \<Longrightarrow> a \<in> filed s \<Longrightarrow> b \<in> filed s \<Longrightarrow>
   c \<in> set (children (store s a)) \<Longrightarrow> c \<in> set (children (store s b)) \<Longrightarrow> a = b"
  using distinct_all_children [of s] unfolding well_formed_def by blast

lemma wf_distinct_children: "well_formed s \<Longrightarrow> a \<in> filed s \<Longrightarrow> distinct (children (store s a))"
  using distinct_all_children [of s] unfolding well_formed_def by blast

lemma wf_fresh: "well_formed s \<Longrightarrow> a \<in> filed s \<Longrightarrow> a < fresh s"
  by (force simp: well_formed_def filed_def)

lemma wf_empty_name: "well_formed s \<Longrightarrow> a \<in> filed s \<Longrightarrow> name (store s a) = [] \<Longrightarrow> children (store s a) = []"
  by (force simp: well_formed_def filed_def)

lemma well_formed_init: "well_formed init"
  by (simp add: well_formed_def init_def all_children_def)

lemma well_formedI:
  assumes "distinct (map fst (nodes s))" "distinct (map snd (nodes s))"
    and "\<And>k a. (k, a) \<in> set (nodes s) \<Longrightarrow> name (store s a) = k \<and> a < fresh s \<and>
            set (children (store s a)) \<subseteq> filed s \<and> (k = [] \<longrightarrow> children (store s a) = [])"
    and "\<And>a. a \<in> filed s \<Longrightarrow> distinct (children (store s a))"
    and "\<And>a b. a \<in> filed s \<Longrightarrow> b \<in> filed s \<Longrightarrow> a \<noteq> b \<Longrightarrow>
            set (children (store s a)) \<inter> set (children (store s b)) = {}"
  shows "well_formed s"
  unfolding well_formed_def using assms distinct_all_children [of s] by force

subsection \<open>The operation add keeps hierarchies well-formed\<close>

lemma dict_set_new: "map_of d k = None \<Longrightarrow> dict_set k a d = d @ [(k, a)]"
  by (simp add: dict_set_def)

lemma well_formed_root_update [simp]: "well_formed (s\<lparr>root := r\<rparr>) = well_formed s"
  by (simp add: well_formed_def all_children_def filed_def)

lemma filed_root_update [simp]: "filed (s\<lparr>root := r\<rparr>) = filed s"
  by (simp add: filed_def)

lemma all_children_root_update [simp]: "all_children (s\<lparr>root := r\<rparr>) = all_children s"
  by (simp add: all_children_def)

lemma upd_node_simps [simp]:
  "nodes (upd_node s a f) = nodes s"
  "root (upd_node s a f) = root s"
  "fresh (upd_node s a f) = fresh s"
  "filed (upd_node s a f) = filed s"
  "store (upd_node s a f) b = (if b = a then f (store s a) else store s b)"
  by (simp_all add: upd_node_def filed_def)

text \<open>Appending a filed object that is nobody's child to the child list of a filed object.\<close>

lemma well_formed_attach:
  assumes wf: "well_formed s" and pa: "pa \<in> filed s" and nm: "name (store s pa) \<noteq> []"
    and a: "a \<in> filed s" and free: "a \<notin> set (all_children s)"
  shows "well_formed (upd_node s pa (\<lambda>n. n\<lparr>children := children n @ [a]\<rparr>))"
proof (rule well_formedI)
  let ?s = "upd_node s pa (\<lambda>n. n\<lparr>children := children n @ [a]\<rparr>)"
  from free have free': "\<And>b. b \<in> filed s \<Longrightarrow> a \<notin> set (children (store s b))"
    by (auto simp: set_all_children)
  show "distinct (map fst (nodes ?s))" "distinct (map snd (nodes ?s))"
    using wf by (simp_all add: well_formed_def)
  show "name (store ?s b) = k \<and> b < fresh ?s \<and> set (children (store ?s b)) \<subseteq> filed ?s \<and>
        (k = [] \<longrightarrow> children (store ?s b) = [])" if "(k, b) \<in> set (nodes ?s)" for k b
  proof -
    from that have e: "(k, b) \<in> set (nodes s)" by simp
    with wf have *: "name (store s b) = k" "b < fresh s" "set (children (store s b)) \<subseteq> filed s"
      "k = [] \<longrightarrow> children (store s b) = []"
      by (force simp: well_formed_def)+
    show ?thesis using * a nm by auto
  qed
  show "distinct (children (store ?s b))" if "b \<in> filed ?s" for b
    using that wf_distinct_children [OF wf, of b] free' [of b] by auto
  show "set (children (store ?s b)) \<inter> set (children (store ?s c)) = {}"
    if "b \<in> filed ?s" "c \<in> filed ?s" "b \<noteq> c" for b c
  proof -
    have "set (children (store s b)) \<inter> set (children (store s c)) = {}"
      using wf_unique_parent [OF wf, of b c] that by auto
    then show ?thesis using free' [of b] free' [of c] that by auto
  qed
qed

lemma with_new_node_simps [simp]:
  "nodes (with_new_node s nm hv ev bv pv) = nodes s @ [(nm, fresh s)]"
  "root (with_new_node s nm hv ev bv pv) = root s"
  "fresh (with_new_node s nm hv ev bv pv) = Suc (fresh s)"
  "filed (with_new_node s nm hv ev bv pv) = insert (fresh s) (filed s)"
  "store (with_new_node s nm hv ev bv pv) b =
     (if b = fresh s
      then \<lparr>name = nm, head = hv, employees = ev, budget = bv, perf = pv, children = []\<rparr>
      else store s b)"
  by (auto simp: with_new_node_def filed_def)

lemma add_unattached:
  assumes "map_of (nodes s) nm = None"
    and "parent = None \<or> parent = Some [] \<or>
         map_of (nodes s @ [(nm, fresh s)]) (the parent) = None"
  shows "add s nm parent hv ev bv pv =
     (True, if root s = None then (with_new_node s nm hv ev bv pv)\<lparr>root := Some (fresh s)\<rparr>
            else with_new_node s nm hv ev bv pv)"
  using assms by (auto simp: add_def Let_def dict_set_new with_new_node_def simp del: map_of_append)

lemma add_attached:
  assumes "map_of (nodes s) nm = None" and "p \<noteq> []"
    and "map_of (nodes s @ [(nm, fresh s)]) p = Some pa"
  shows "add s nm (Some p) hv ev bv pv =
     (True, upd_node (with_new_node s nm hv ev bv pv) pa
              (\<lambda>n. n\<lparr>children := children n @ [fresh s]\<rparr>))"
  using assms by (simp add: add_def Let_def dict_set_new with_new_node_def del: map_of_append)

lemma with_new_node_well_formed:
  assumes wf: "well_formed s" and new: "map_of (nodes s) nm = None"
  shows "well_formed (with_new_node s nm hv ev bv pv)"
    and "fresh s \<notin> set (all_children (with_new_node s nm hv ev bv pv))"
proof -
  let ?s1 = "with_new_node s nm hv ev bv pv"
  have old: "\<And>b. b \<in> filed s \<Longrightarrow> b \<noteq> fresh s"
    using wf_fresh [OF wf] by auto
  have nmkey: "nm \<notin> fst ` set (nodes s)"
    using new by (simp add: map_of_eq_None_iff)
  show wf1: "well_formed ?s1"
  proof (rule well_formedI)
    show "distinct (map fst (nodes ?s1))" "distinct (map snd (nodes ?s1))"
      using wf nmkey old by (auto simp: well_formed_def filed_def)
    show "name (store ?s1 b) = k \<and> b < fresh ?s1 \<and> set (children (store ?s1 b)) \<subseteq> filed ?s1 \<and>
          (k = [] \<longrightarrow> children (store ?s1 b) = [])" if "(k, b) \<in> set (nodes ?s1)" for k b
    proof (cases "b = fresh s")
      case True
      with that old show ?thesis by (force simp: filed_def)
    next
      case False
      with that have e: "(k, b) \<in> set (nodes s)" by auto
      with wf have "name (store s b) = k" "b < fresh s" "set (children (store s b)) \<subseteq> filed s"
        "k = [] \<longrightarrow> children (store s b) = []"
        by (force simp: well_formed_def)+
      with False show ?thesis by auto
    qed
    show "distinct (children (store ?s1 b))" if "b \<in> filed ?s1" for b
      using that wf_distinct_children [OF wf, of b] by auto
    show "set (children (store ?s1 b)) \<inter> set (children (store ?s1 c)) = {}"
      if "b \<in> filed ?s1" "c \<in> filed ?s1" "b \<noteq> c" for b c
      using that wf_unique_parent [OF wf, of b c] by auto
  qed
  show "fresh s \<notin> set (all_children ?s1)"
  proof
    assume "fresh s \<in> set (all_children ?s1)"
    then obtain b where b: "b \<in> filed ?s1" "fresh s \<in> set (children (store ?s1 b))"
      by (auto simp: set_all_children)
    then have "b \<noteq> fresh s" by auto
    with b have "b \<in> filed s" "fresh s \<in> set (children (store s b))"
      by auto
    then have "fresh s \<in> filed s" by (rule wf_children_filed [OF wf])
    with old show False by blast
  qed
qed

lemma add_well_formed:
  assumes wf: "well_formed s"
  shows "well_formed (snd (add s nm parent hv ev bv pv))"
proof (cases "map_of (nodes s) nm = None")
  case False
  then show ?thesis using wf by (simp add: add_def)
next
  case True
  let ?s1 = "with_new_node s nm hv ev bv pv"
  note wf1 = with_new_node_well_formed [OF wf True, of hv ev bv pv]
  show ?thesis
  proof (cases "parent = None \<or> parent = Some [] \<or>
         map_of (nodes s @ [(nm, fresh s)]) (the parent) = None")
    case True
    from add_unattached [OF \<open>map_of (nodes s) nm = None\<close> True] wf1(1)
    show ?thesis by simp
  next
    case False
    then obtain p pa where p: "parent = Some p" "p \<noteq> []"
      "map_of (nodes s @ [(nm, fresh s)]) p = Some pa"
      by (cases parent) (auto simp del: map_of_append)
    from p(3) have "map_of (nodes ?s1) p = Some pa" by simp
    then have pa: "pa \<in> filed ?s1" and "name (store ?s1 pa) = p"
      by (rule map_of_filed, rule wf_name [OF wf1(1)])
    with p have "name (store ?s1 pa) \<noteq> []" by simp
    from well_formed_attach [OF wf1(1) pa this _ wf1(2)]
    show ?thesis by (simp add: add_attached [OF True p(2,3)] p(1))
  qed
qed

subsection \<open>Descendants and detaching\<close>

lemma descendants_refl [simp]: "a \<in> descendants h a"
  by (simp add: descendants_def)

lemma descendants_step:
  "b \<in> descendants h a \<Longrightarrow> c \<in> set (children (h b)) \<Longrightarrow> c \<in> descendants h a"
  unfolding descendants_def child_rel_def
  by (auto intro: rtrancl_into_rtrancl)

lemma descendants_induct [consumes 1, case_names self child]:
  assumes "b \<in> descendants h a" and "P a"
    and "\<And>b c. b \<in> descendants h a \<Longrightarrow> P b \<Longrightarrow> c \<in> set (children (h b)) \<Longrightarrow> P c"
  shows "P b"
proof -
  from assms(1) have "(a, b) \<in> (child_rel h)\<^sup>*" by (simp add: descendants_def)
  then show ?thesis
  proof (induction rule: rtrancl_induct)
    case base
    show ?case by (rule assms(2))
  next
    case (step y z)
    then show ?case using assms(3) [of y z]
      by (auto simp: descendants_def child_rel_def)
  qed
qed

lemma wf_descendants_filed:
  assumes "well_formed s" "a \<in> filed s" "b \<in> descendants (store s) a"
  shows "b \<in> filed s"
  using assms(3,2) by (induction rule: descendants_induct) (auto intro: wf_children_filed [OF assms(1)])

lemma find_parent_and_remove_filed [simp]: "filed (find_parent_and_remove s nm) = filed s"
  by (simp add: filed_def)

lemma find_parent_and_remove_children:
  "children (store (find_parent_and_remove s nm) b) =
     (if b \<in> filed s then filter (\<lambda>c. name (store s c) \<noteq> nm) (children (store s b))
      else children (store s b))"
  by (simp add: filed_def find_parent_and_remove_store)

lemma find_parent_and_remove_name [simp]:
  "name (store (find_parent_and_remove s nm) b) = name (store s b)"
  by (simp add: find_parent_and_remove_store)

lemma find_parent_and_remove_well_formed:
  assumes wf: "well_formed s"
  shows "well_formed (find_parent_and_remove s nm)"
proof (rule well_formedI)
  let ?s = "find_parent_and_remove s nm"
  show "distinct (map fst (nodes ?s))" "distinct (map snd (nodes ?s))"
    using wf by (simp_all add: well_formed_def)
  show "name (store ?s b) = k \<and> b < fresh ?s \<and> set (children (store ?s b)) \<subseteq> filed ?s \<and>
        (k = [] \<longrightarrow> children (store ?s b) = [])" if "(k, b) \<in> set (nodes ?s)" for k b
  proof -
    from that have e: "(k, b) \<in> set (nodes s)" by simp
    with wf have "name (store s b) = k" "b < fresh s" "set (children (store s b)) \<subseteq> filed s"
      "k = [] \<longrightarrow> children (store s b) = []"
      by (force simp: well_formed_def)+
    then show ?thesis
      unfolding find_parent_and_remove_children find_parent_and_remove_name by auto
  qed
  show "distinct (children (store ?s b))" if "b \<in> filed ?s" for b
    using that wf_distinct_children [OF wf, of b]
    unfolding find_parent_and_remove_children by auto
  show "set (children (store ?s b)) \<inter> set (children (store ?s c)) = {}"
    if "b \<in> filed ?s" "c \<in> filed ?s" "b \<noteq> c" for b c
  proof -
    have "set (children (store s b)) \<inter> set (children (store s c)) = {}"
      using wf_unique_parent [OF wf, of b c] that by auto
    then show ?thesis unfolding find_parent_and_remove_children by auto
  qed
qed

lemma find_parent_and_remove_children_wf:
  assumes wf: "well_formed s" and x: "map_of (nodes s) nm = Some x" and b: "b \<in> filed s"
  shows "children (store (find_parent_and_remove s nm) b) = filter (\<lambda>c. c \<noteq> x) (children (store s b))"
proof -
  have xf: "x \<in> filed s" using x by (rule map_of_filed)
  have xn: "name (store s x) = nm" using wf x by (rule wf_name)
  have "name (store s c) \<noteq> nm \<longleftrightarrow> c \<noteq> x" if "c \<in> set (children (store s b))" for c
  proof -
    from wf b that have "c \<in> filed s" by (rule wf_children_filed)
    with wf_name_inj [OF wf this xf] xn show ?thesis by auto
  qed
  then have "filter (\<lambda>c. name (store s c) \<noteq> nm) (children (store s b))
      = filter (\<lambda>c. c \<noteq> x) (children (store s b))"
    by (intro filter_cong) auto
  with b show ?thesis by (simp only: find_parent_and_remove_children if_True)
qed

lemma find_parent_and_remove_detached:
  assumes wf: "well_formed s" and x: "map_of (nodes s) nm = Some x"
  shows "x \<notin> set (all_children (find_parent_and_remove s nm))"
  unfolding set_all_children
  using find_parent_and_remove_children_wf [OF wf x] by auto

lemma fold_del_if_present:
  "fold del_if_present ns d = filter (\<lambda>e. fst e \<notin> set ns) d"
proof (induction ns arbitrary: d)
  case Nil
  show ?case by simp
next
  case (Cons n ns)
  have "del_if_present n d = filter (\<lambda>e. fst e \<noteq> n) d"
  proof (cases "map_of d n = None")
    case True
    then have "\<forall>e \<in> set d. fst e \<noteq> n"
      by (auto simp: map_of_eq_None_iff)
    then show ?thesis using True by (simp add: del_if_present_def case_prod_unfold)
  next
    case False
    then show ?thesis by (simp add: del_if_present_def dict_del_def case_prod_unfold)
  qed
  then show ?case by (simp add: Cons.IH conj_commute)
qed

subsection \<open>The loop of delete\<close>

lemma wf_distinct_concat_children:
  assumes "well_formed t" "distinct ys" "set ys \<subseteq> filed t"
  shows "distinct (concat (map (\<lambda>a. children (store t a)) ys))"
  unfolding distinct_concat_map [OF assms(2)]
  using wf_distinct_children [OF assms(1)] wf_unique_parent [OF assms(1)] assms(3)
  by (auto simp: subset_iff)

lemma filed_card: "distinct as \<Longrightarrow> set as \<subseteq> filed t \<Longrightarrow> length as \<le> length (nodes t)"
proof -
  assume d: "distinct as" and s: "set as \<subseteq> filed t"
  have "length as = card (set as)" using d by (simp add: distinct_card)
  also have "\<dots> \<le> card (filed t)" using s by (intro card_mono) (auto simp: filed_def)
  also have "\<dots> \<le> card (set (nodes t))" unfolding filed_def by (rule card_image_le) simp
  also have "\<dots> \<le> length (nodes t)" by (rule card_length)
  finally show ?thesis .
qed

lemma collect_from:
  assumes wf: "well_formed t" and x: "x \<in> filed t" and det: "x \<notin> set (all_children t)"
    and i: "i \<le> length as" and d: "distinct as" and sub: "set as \<subseteq> descendants (store t) x"
    and shape: "as = x # concat (map (\<lambda>a. children (store t a)) (take i as))"
  shows "\<exists>as'. collect t (map (\<lambda>a. name (store t a)) as) i = Some (map (\<lambda>a. name (store t a)) as') \<and>
               distinct as' \<and> set as' = descendants (store t) x"
  using i d sub shape
proof (induction "length (nodes t) - i" arbitrary: as i rule: less_induct)
  case less
  let ?nm = "\<lambda>a. name (store t a)"
  let ?ch = "\<lambda>a. children (store t a)"
  have fil: "set as \<subseteq> filed t"
    using less.prems(3) wf_descendants_filed [OF wf x] by blast
  have len: "length as \<le> length (nodes t)"
    using less.prems(2) fil by (rule filed_card)
  show ?case
  proof (cases "i < length as")
    case False
    with less.prems(1) have il: "i = length as" by simp
    with less.prems(4) have sh: "as = x # concat (map ?ch as)" by simp
    have "b \<in> set as" if "b \<in> descendants (store t) x" for b
      using that
    proof (induction rule: descendants_induct)
      case self
      show ?case by (subst sh) simp
    next
      case (child b c)
      then have "c \<in> set (concat (map ?ch as))" by auto
      then show ?case by (subst sh) simp
    qed
    with less.prems(3) have "set as = descendants (store t) x" by blast
    moreover have "collect t (map ?nm as) i = Some (map ?nm as)"
      using il by (subst collect.simps) simp
    ultimately show ?thesis using less.prems(2) by blast
  next
    case True
    define a where "a = as ! i"
    define as2 where "as2 = as @ ?ch a"
    have a_in: "a \<in> set as" using True by (simp add: a_def)
    then have af: "a \<in> filed t" using fil by blast
    have look: "map_of (nodes t) (map ?nm as ! i) = Some a"
      using True wf_filed_map_of [OF wf af] by (simp add: a_def)
    have unf: "collect t (map ?nm as) i = collect t (map ?nm as2) (Suc i)"
      using True look by (subst collect.simps) (simp add: as2_def)
    have tk: "take (Suc i) as2 = take i as @ [a]"
      using True by (simp add: as2_def a_def take_Suc_conv_app_nth)
    have sh2: "as2 = x # concat (map ?ch (take (Suc i) as2))"
      unfolding tk using less.prems(4) by (simp add: as2_def)
    have sub2: "set as2 \<subseteq> descendants (store t) x"
      using less.prems(3) a_in by (auto simp: as2_def intro: descendants_step)
    have d2: "distinct as2"
    proof -
      have "distinct (take (Suc i) as)" using less.prems(2) by simp
      moreover have "set (take (Suc i) as) \<subseteq> filed t"
        using fil set_take_subset [of "Suc i" as] by blast
      ultimately have dc: "distinct (concat (map ?ch (take (Suc i) as)))"
        by (rule wf_distinct_concat_children [OF wf])
      have "x \<notin> set (concat (map ?ch (take (Suc i) as)))"
      proof
        assume "x \<in> set (concat (map ?ch (take (Suc i) as)))"
        then obtain b where "b \<in> set (take (Suc i) as)" "x \<in> set (?ch b)" by auto
        then have "b \<in> filed t" "x \<in> set (?ch b)"
          using fil set_take_subset [of "Suc i" as] by blast+
        with det show False by (auto simp: set_all_children)
      qed
      with dc have "distinct (x # concat (map ?ch (take (Suc i) as)))" by simp
      moreover have "take (Suc i) as2 = take (Suc i) as"
        using True by (simp add: as2_def)
      ultimately show ?thesis using sh2 by simp
    qed
    have "length (nodes t) - Suc i < length (nodes t) - i"
      using True len by arith
    from less.hyps [OF this _ d2 sub2 sh2] True
    have "\<exists>as'. collect t (map ?nm as2) (Suc i) = Some (map ?nm as') \<and>
               distinct as' \<and> set as' = descendants (store t) x"
      by (simp add: as2_def)
    then show ?thesis unfolding unf .
  qed
qed

lemma collect_detached:
  assumes wf: "well_formed t" and x: "map_of (nodes t) X = Some x" and det: "x \<notin> set (all_children t)"
  shows "\<exists>as. collect t [X] 0 = Some (map (\<lambda>a. name (store t a)) as) \<and>
              distinct as \<and> set as = descendants (store t) x"
proof -
  have xf: "x \<in> filed t" using x by (rule map_of_filed)
  have "name (store t x) = X" using wf x by (rule wf_name)
  with collect_from [OF wf xf det, of 0 "[x]"] show ?thesis by simp
qed

subsection \<open>The operation delete\<close>

lemma descendants_detached:
  assumes wf: "well_formed s" and x: "map_of (nodes s) X = Some x"
  shows "descendants (store (find_parent_and_remove s X)) x = descendants (store s) x"
proof -
  let ?t = "find_parent_and_remove s X"
  have xf: "x \<in> filed s" using x by (rule map_of_filed)
  have wft: "well_formed ?t" using wf by (rule find_parent_and_remove_well_formed)
  have ch: "\<And>b. b \<in> filed s \<Longrightarrow>
      children (store ?t b) = filter (\<lambda>c. c \<noteq> x) (children (store s b))"
    by (rule find_parent_and_remove_children_wf [OF wf x])
  have "b \<in> descendants (store s) x" if "b \<in> descendants (store ?t) x" for b
    using that
  proof (induction rule: descendants_induct)
    case self
    show ?case by simp
  next
    case (child b c)
    from child.hyps(1) have "b \<in> filed s"
      using wf_descendants_filed [OF wft, of x b] xf by simp
    with child.hyps(2) have "c \<in> set (children (store s b))" by (simp add: ch)
    with child.IH show ?case by (rule descendants_step)
  qed
  moreover have "b \<in> descendants (store ?t) x" if "b \<in> descendants (store s) x" for b
    using that
  proof (induction rule: descendants_induct)
    case self
    show ?case by simp
  next
    case (child b c)
    show ?case
    proof (cases "c = x")
      case True
      then show ?thesis by simp
    next
      case False
      from child.hyps(1) have "b \<in> filed s" by (rule wf_descendants_filed [OF wf xf])
      with child.hyps(2) False have "c \<in> set (children (store ?t b))" by (simp add: ch)
      with child.IH show ?thesis by (rule descendants_step)
    qed
  qed
  ultimately show ?thesis by blast
qed

lemma descendants_cases:
  assumes "b \<in> descendants h a"
  shows "b = a \<or> (\<exists>p \<in> descendants h a. b \<in> set (children (h p)))"
  using assms by (induction rule: descendants_induct) auto

lemma delete_result:
  assumes wf: "well_formed s" and x: "map_of (nodes s) X = Some x"
  shows "\<exists>s'. delete s X = Some (True, s') \<and>
          nodes s' = filter (\<lambda>e. snd e \<notin> descendants (store s) x) (nodes s) \<and>
          root s' = root_after_delete s X \<and>
          store s' = store (find_parent_and_remove s X) \<and> fresh s' = fresh s \<and>
          well_formed s'"
proof -
  define s1 where "s1 = s\<lparr>root := root_after_delete s X\<rparr>"
  define t where "t = find_parent_and_remove s1 X"
  have s1: "(case root s of Some r \<Rightarrow> if name (store s r) = X then s\<lparr>root := None\<rparr> else s
             | None \<Rightarrow> s) = s1"
    by (auto simp: s1_def root_after_delete_def split: option.split)
  have wf1: "well_formed s1" using wf by (simp add: s1_def)
  have x1: "map_of (nodes s1) X = Some x" using x by (simp add: s1_def)
  have wft: "well_formed t" unfolding t_def using wf1 by (rule find_parent_and_remove_well_formed)
  have xt: "map_of (nodes t) X = Some x" using x by (simp add: t_def s1_def)
  have xf: "x \<in> filed t" using xt by (rule map_of_filed)
  have det: "x \<notin> set (all_children t)"
    unfolding t_def using wf1 x1 by (rule find_parent_and_remove_detached)
  have st: "store t = store (find_parent_and_remove s X)"
    by (simp add: t_def s1_def find_parent_and_remove_def)
  have D: "descendants (store t) x = descendants (store s) x"
    unfolding st using wf x by (rule descendants_detached)
  from collect_detached [OF wft xt det] obtain as where
    as: "collect t [X] 0 = Some (map (\<lambda>a. name (store t a)) as)"
      "distinct as" "set as = descendants (store t) x" by blast
  define s' where "s' = t\<lparr>nodes := fold del_if_present (map (\<lambda>a. name (store t a)) as) (nodes t)\<rparr>"
  have del: "delete s X = Some (True, s')"
    using x as(1) by (simp add: delete_def s1 Let_def t_def [symmetric] s'_def)
  have asf: "set as \<subseteq> filed t"
    using as(3) wf_descendants_filed [OF wft xf] by blast
  have key: "fst e \<in> set (map (\<lambda>a. name (store t a)) as) \<longleftrightarrow> snd e \<in> set as"
    if "e \<in> set (nodes t)" for e
  proof -
    from that have ef: "snd e \<in> filed t" by (auto simp: filed_def)
    from that wft have en: "name (store t (snd e)) = fst e" by (auto simp: well_formed_def)
    show ?thesis
    proof
      assume "fst e \<in> set (map (\<lambda>a. name (store t a)) as)"
      then obtain a where a: "a \<in> set as" "name (store t a) = fst e" by auto
      with asf have "a \<in> filed t" by blast
      from wf_name_inj [OF wft this ef] a(2) en have "a = snd e" by simp
      with a(1) show "snd e \<in> set as" by simp
    next
      assume "snd e \<in> set as"
      with en show "fst e \<in> set (map (\<lambda>a. name (store t a)) as)" by force
    qed
  qed
  have nodes': "nodes s' = filter (\<lambda>e. snd e \<notin> descendants (store s) x) (nodes s)"
  proof -
    have "nodes s' = filter (\<lambda>e. fst e \<notin> set (map (\<lambda>a. name (store t a)) as)) (nodes t)"
      by (simp add: s'_def fold_del_if_present)
    also have "\<dots> = filter (\<lambda>e. snd e \<notin> set as) (nodes t)"
      using key by (intro filter_cong) auto
    finally show ?thesis unfolding as(3) D by (simp add: t_def s1_def)
  qed
  have ft: "filed t = filed s" by (simp add: t_def s1_def filed_def)
  have filed': "filed s' = filed t - descendants (store t) x"
    unfolding D ft by (auto simp: filed_def nodes')
  have wf': "well_formed s'"
  proof (rule well_formedI)
    show "distinct (map fst (nodes s'))" "distinct (map snd (nodes s'))"
      unfolding nodes' using wf by (simp_all add: well_formed_def distinct_map_filter)
    show "name (store s' b) = k \<and> b < fresh s' \<and> set (children (store s' b)) \<subseteq> filed s' \<and>
          (k = [] \<longrightarrow> children (store s' b) = [])" if "(k, b) \<in> set (nodes s')" for k b
    proof -
      have nt: "nodes t = nodes s" by (simp add: t_def s1_def)
      from that have e: "(k, b) \<in> set (nodes t)" and bD: "b \<notin> descendants (store t) x"
        unfolding D nt by (auto simp: nodes')
      then have bf: "b \<in> filed t" by (force simp: filed_def)
      from e wft have *: "name (store t b) = k" "b < fresh t" "set (children (store t b)) \<subseteq> filed t"
        "k = [] \<longrightarrow> children (store t b) = []"
        by (force simp: well_formed_def)+
      have "c \<notin> descendants (store t) x" if c: "c \<in> set (children (store t b))" for c
      proof
        assume "c \<in> descendants (store t) x"
        from descendants_cases [OF this] show False
        proof
          assume "c = x"
          with c bf det show False by (auto simp: set_all_children)
        next
          assume "\<exists>p \<in> descendants (store t) x. c \<in> set (children (store t p))"
          then obtain p where p: "p \<in> descendants (store t) x" "c \<in> set (children (store t p))"
            by blast
          from p(1) have "p \<in> filed t" by (rule wf_descendants_filed [OF wft xf])
          from wf_unique_parent [OF wft this bf p(2) c] p(1) bD show False by simp
        qed
      qed
      with * show ?thesis unfolding filed' by (auto simp: s'_def)
    qed
    show "distinct (children (store s' b))" if "b \<in> filed s'" for b
      using that wf_distinct_children [OF wft, of b] unfolding filed' by (simp add: s'_def)
    show "set (children (store s' b)) \<inter> set (children (store s' c)) = {}"
      if "b \<in> filed s'" "c \<in> filed s'" "b \<noteq> c" for b c
      using that wf_unique_parent [OF wft, of b c] unfolding filed' by (auto simp: s'_def)
  qed
  have "root s' = root_after_delete s X" "store s' = store (find_parent_and_remove s X)"
    "fresh s' = fresh s"
    by (simp_all add: s'_def st) (simp_all add: t_def s1_def)
  with del nodes' wf' show ?thesis by blast
qed

subsection \<open>Deleting a subtree\<close>

lemma descendants_leaf: "children (h a) = [] \<Longrightarrow> descendants h a = {a}"
proof -
  assume leaf: "children (h a) = []"
  have "b = a" if "b \<in> descendants h a" for b
    using that by (induction rule: descendants_induct) (auto simp: leaf)
  then show ?thesis by auto
qed

lemma well_formed_ex_AB: "well_formed ex_AB"
  unfolding ex_AB_def ex_A_def add_default_def
  by (intro add_well_formed well_formed_init)

text \<open>
  Claim C4. On a well-formed hierarchy, \<^verbatim>\<open>delete(X)\<close> of a name that is no key returns
  \<^verbatim>\<open>False\<close> and changes nothing; for a key X it returns \<^verbatim>\<open>True\<close>, and the dictionary
  it leaves is the old one without the entries of X's node and of its descendants (the
  objects reached from the node over child links): exactly their names are gone. If the
  node of X was the root, the root is unset.
\<close>

theorem delete_removes_subtree:
  assumes "well_formed s"
  shows "(map_of (nodes s) X = None \<longrightarrow> delete s X = Some (False, s)) \<and>
         (\<forall>x. map_of (nodes s) X = Some x \<longrightarrow>
            (\<exists>s'. delete s X = Some (True, s') \<and>
                  nodes s' = filter (\<lambda>e. snd e \<notin> descendants (store s) x) (nodes s) \<and>
                  fst ` set (nodes s') =
                    fst ` set (nodes s) - (\<lambda>a. name (store s a)) ` descendants (store s) x \<and>
                  (root s = Some x \<longrightarrow> root s' = None)))"
proof (intro conjI allI impI)
  assume "map_of (nodes s) X = None"
  then show "delete s X = Some (False, s)" by (rule delete_absent_unchanged)
next
  fix x
  assume x: "map_of (nodes s) X = Some x"
  from delete_result [OF assms x] obtain s' where
    s': "delete s X = Some (True, s')"
      "nodes s' = filter (\<lambda>e. snd e \<notin> descendants (store s) x) (nodes s)"
      "root s' = root_after_delete s X" by blast
  have xf: "x \<in> filed s" using x by (rule map_of_filed)
  have xn: "name (store s x) = X" using assms x by (rule wf_name)
  have "fst e \<in> (\<lambda>a. name (store s a)) ` descendants (store s) x \<longleftrightarrow>
        snd e \<in> descendants (store s) x" if e: "e \<in> set (nodes s)" for e
  proof -
    from e have ef: "snd e \<in> filed s" by (auto simp: filed_def)
    from e assms have en: "name (store s (snd e)) = fst e" by (auto simp: well_formed_def)
    show ?thesis
    proof
      assume "fst e \<in> (\<lambda>a. name (store s a)) ` descendants (store s) x"
      then obtain a where a: "a \<in> descendants (store s) x" "name (store s a) = fst e" by auto
      from a(1) have "a \<in> filed s" by (rule wf_descendants_filed [OF assms xf])
      from wf_name_inj [OF assms this ef] a(2) en have "a = snd e" by simp
      with a(1) show "snd e \<in> descendants (store s) x" by simp
    next
      assume "snd e \<in> descendants (store s) x"
      with en show "fst e \<in> (\<lambda>a. name (store s a)) ` descendants (store s) x" by force
    qed
  qed
  then have keys: "fst ` set (nodes s') =
      fst ` set (nodes s) - (\<lambda>a. name (store s a)) ` descendants (store s) x"
    unfolding s'(2) by force
  have "root s = Some x \<longrightarrow> root s' = None"
    by (simp add: s'(3) root_after_delete_def xn)
  with s' keys show "\<exists>s'. delete s X = Some (True, s') \<and>
      nodes s' = filter (\<lambda>e. snd e \<notin> descendants (store s) x) (nodes s) \<and>
      fst ` set (nodes s') =
        fst ` set (nodes s) - (\<lambda>a. name (store s a)) ` descendants (store s) x \<and>
      (root s = Some x \<longrightarrow> root s' = None)" by blast
qed

theorem delete_removes_subtree_witness:
  "well_formed ex_AB \<and> map_of (nodes ex_AB) ''A'' = Some 0 \<and> root ex_AB = Some 0 \<and>
   map_of (nodes ex_AB) ''C'' = None \<and> delete ex_AB ''C'' = Some (False, ex_AB) \<and>
   (\<exists>s'. delete ex_AB ''A'' = Some (True, s') \<and> nodes s' = [] \<and> root s' = None)"
proof -
  have A: "map_of (nodes ex_AB) ''A'' = Some 0" and r: "root ex_AB = Some 0"
    and C: "map_of (nodes ex_AB) ''C'' = None"
    and N: "nodes ex_AB = [(''A'', 0), (''B'', 1)]"
    and ch: "children (store ex_AB 0) = [1]"
    by (simp_all add: example_defs)
  have "0 \<in> descendants (store ex_AB) 0" by simp
  moreover from this have "1 \<in> descendants (store ex_AB) 0"
    by (rule descendants_step) (simp add: ch)
  ultimately have "filter (\<lambda>e. snd e \<notin> descendants (store ex_AB) 0) (nodes ex_AB) = []"
    by (simp add: N)
  with delete_removes_subtree [OF well_formed_ex_AB, of "''A''"]
       delete_removes_subtree [OF well_formed_ex_AB, of "''C''"] A r C well_formed_ex_AB
  show ?thesis by force
qed

subsection \<open>Runs of add and delete, and chains from the root\<close>

lemma add_attached_root:
  assumes wf: "well_formed s" and ar: "attached_root s"
  shows "attached_root (snd (add s nm parent hv ev bv pv))"
proof (cases "map_of (nodes s) nm = None")
  case False
  then show ?thesis using ar by (simp add: add_def)
next
  case True
  let ?s1 = "with_new_node s nm hv ev bv pv"
  note wf1 = with_new_node_well_formed [OF wf True, of hv ev bv pv]
  have old: "\<And>b. b \<in> filed s \<Longrightarrow> b \<noteq> fresh s"
    using wf_fresh [OF wf] by auto
  have ac1: "set (all_children ?s1) = set (all_children s)"
    using old by (auto simp: set_all_children)
  have ar1: "attached_root ?s1"
    using ar by (auto simp: attached_root_def ac1 split: option.splits)
  show ?thesis
  proof (cases "parent = None \<or> parent = Some [] \<or>
         map_of (nodes s @ [(nm, fresh s)]) (the parent) = None")
    case True
    from add_unattached [OF \<open>map_of (nodes s) nm = None\<close> True] wf1(2) ar1
    show ?thesis by (auto simp: attached_root_def)
  next
    case False
    then obtain p pa where p: "parent = Some p" "p \<noteq> []"
      "map_of (nodes s @ [(nm, fresh s)]) p = Some pa"
      by (cases parent) (auto simp del: map_of_append)
    let ?s2 = "upd_node ?s1 pa (\<lambda>n. n\<lparr>children := children n @ [fresh s]\<rparr>)"
    have "set (all_children ?s2) \<subseteq> insert (fresh s) (set (all_children ?s1))"
      unfolding set_all_children by (auto split: if_splits)
    then have "attached_root ?s2"
      using ar old unfolding ac1 by (auto simp: attached_root_def split: option.splits)
    then show ?thesis by (simp add: add_attached [OF True p(2,3)] p(1))
  qed
qed

lemma add_tree_inv: "tree_inv s \<Longrightarrow> tree_inv (snd (add s nm parent hv ev bv pv))"
  by (simp add: tree_inv_def add_well_formed add_attached_root)

lemma delete_tree_inv:
  assumes "tree_inv s"
  shows "\<exists>r. delete s X = Some r \<and> tree_inv (snd r)"
proof (cases "map_of (nodes s) X")
  case None
  then show ?thesis using assms by (simp add: delete_absent_unchanged)
next
  case (Some x)
  from assms have wf: "well_formed s" and ar: "attached_root s" by (simp_all add: tree_inv_def)
  from delete_result [OF wf Some] obtain s' where
    s': "delete s X = Some (True, s')"
      "nodes s' = filter (\<lambda>e. snd e \<notin> descendants (store s) x) (nodes s)"
      "root s' = root_after_delete s X"
      "store s' = store (find_parent_and_remove s X)" "well_formed s'" by blast
  have xf: "x \<in> filed s" using Some by (rule map_of_filed)
  have xn: "name (store s x) = X" using wf Some by (rule wf_name)
  have filed': "filed s' = filed s - descendants (store s) x"
    by (auto simp: filed_def s'(2))
  have sub: "set (all_children s') \<subseteq> set (all_children s)"
    unfolding set_all_children filed' s'(4) find_parent_and_remove_children by auto
  have "attached_root s'"
  proof (cases "root s'")
    case None
    then show ?thesis by (simp add: attached_root_def)
  next
    case (Some r)
    then have r: "root s = Some r" "name (store s r) \<noteq> X"
      by (auto simp: s'(3) root_after_delete_def split: option.splits if_splits)
    with ar have rf: "r \<in> filed s" and rc: "r \<notin> set (all_children s)"
      by (simp_all add: attached_root_def)
    have "r \<notin> descendants (store s) x"
    proof
      assume "r \<in> descendants (store s) x"
      from descendants_cases [OF this] show False
      proof
        assume "r = x"
        with r(2) xn show False by simp
      next
        assume "\<exists>p \<in> descendants (store s) x. r \<in> set (children (store s p))"
        then obtain p where p: "p \<in> descendants (store s) x" "r \<in> set (children (store s p))"
          by blast
        from p(1) have "p \<in> filed s" by (rule wf_descendants_filed [OF wf xf])
        with p(2) rc show False by (auto simp: set_all_children)
      qed
    qed
    with rf rc sub Some show ?thesis by (auto simp: attached_root_def filed')
  qed
  with s'(1,5) show ?thesis by (simp add: tree_inv_def)
qed

lemma tree_inv_init: "tree_inv init"
proof -
  have "root (init :: 'a hierarchy) = None" by (simp add: init_def)
  then show ?thesis by (simp add: tree_inv_def well_formed_init attached_root_def)
qed

lemma run_tree_inv: "tree_inv s \<Longrightarrow> \<exists>s'. run ops s = Some s' \<and> tree_inv s'"
proof (induction ops arbitrary: s)
  case Nil
  then show ?case by simp
next
  case (Cons opn ops)
  show ?case
  proof (cases opn)
    case (Add nm parent hv ev bv pv)
    from Cons.prems have "tree_inv (snd (add s nm parent hv ev bv pv))" by (rule add_tree_inv)
    from Cons.IH [OF this] show ?thesis by (simp add: Add)
  next
    case (Delete nm)
    from delete_tree_inv [OF Cons.prems, of nm] obtain r where
      r: "delete s nm = Some r" "tree_inv (snd r)" by blast
    from Cons.IH [OF r(2)] show ?thesis by (simp add: Delete r(1))
  qed
qed

text \<open>Chains.\<close>

lemma is_chain_snoc:
  "is_chain h (as @ [b]) \<longleftrightarrow> as = [] \<or> (is_chain h as \<and> b \<in> set (children (h (last as))))"
proof (induction h as rule: is_chain.induct)
  case (1 h)
  show ?case by simp
next
  case (2 h a)
  show ?case by simp
next
  case (3 h a c cs)
  then show ?case by auto
qed

lemma chain_filed:
  assumes wf: "well_formed s"
  shows "is_chain (store s) as \<Longrightarrow> hd as \<in> filed s \<Longrightarrow> set as \<subseteq> filed s"
proof (induction as rule: rev_induct)
  case Nil
  then show ?case by simp
next
  case (snoc b as)
  show ?case
  proof (cases "as = []")
    case True
    with snoc.prems show ?thesis by simp
  next
    case False
    with snoc.prems have c: "is_chain (store s) as" "b \<in> set (children (store s (last as)))"
      and h: "hd as \<in> filed s" by (auto simp: is_chain_snoc)
    from snoc.IH [OF c(1) h] have sub: "set as \<subseteq> filed s" .
    with False have "last as \<in> filed s" by auto
    from wf_children_filed [OF wf this c(2)] sub show ?thesis by simp
  qed
qed

lemma root_chain_unique:
  assumes ti: "tree_inv s" and r: "root s = Some r"
  shows "is_chain (store s) as \<Longrightarrow> hd as = r \<Longrightarrow> is_chain (store s) bs \<Longrightarrow> hd bs = r \<Longrightarrow>
         last as = last bs \<Longrightarrow> as = bs"
proof (induction as arbitrary: bs rule: rev_induct)
  case Nil
  then show ?case by simp
next
  case (snoc b as)
  from ti have wf: "well_formed s" and ar: "attached_root s" by (simp_all add: tree_inv_def)
  from ar r have rf: "r \<in> filed s" and rc: "r \<notin> set (all_children s)"
    by (simp_all add: attached_root_def)
  have noparent: False if "is_chain (store s) cs" "hd cs = r" "r \<in> set (children (store s (last cs)))"
      "cs \<noteq> []" for cs
  proof -
    from chain_filed [OF wf that(1)] that(2) rf have "set cs \<subseteq> filed s" by simp
    with that(4) have "last cs \<in> filed s" by auto
    with that(3) rc show False by (auto simp: set_all_children)
  qed
  from snoc.prems(3) obtain b' bs' where bs: "bs = bs' @ [b']"
    by (cases bs rule: rev_cases) auto
  with snoc.prems(5) have b': "b' = b" by simp
  show ?case
  proof (cases "as = []")
    case True
    with snoc.prems(2) have br: "b = r" by simp
    show ?thesis
    proof (cases "bs' = []")
      case True
      with \<open>as = []\<close> bs b' show ?thesis by simp
    next
      case False
      with snoc.prems(3,4) bs b' br have "is_chain (store s) bs'" "hd bs' = r"
        "r \<in> set (children (store s (last bs')))" by (auto simp: is_chain_snoc)
      from noparent [OF this False] show ?thesis ..
    qed
  next
    case False
    with snoc.prems(1,2) have ca: "is_chain (store s) as" "hd as = r"
      "b \<in> set (children (store s (last as)))" by (auto simp: is_chain_snoc)
    show ?thesis
    proof (cases "bs' = []")
      case True
      with snoc.prems(4) bs b' have "b = r" by simp
      with ca have "r \<in> set (children (store s (last as)))" by simp
      from noparent [OF ca(1,2) this False] show ?thesis ..
    next
      case bne: False
      with snoc.prems(3,4) bs b' have cb: "is_chain (store s) bs'" "hd bs' = r"
        "b \<in> set (children (store s (last bs')))" by (auto simp: is_chain_snoc)
      from chain_filed [OF wf ca(1)] ca(2) rf False have la: "last as \<in> filed s" by auto
      from chain_filed [OF wf cb(1)] cb(2) rf bne have lb: "last bs' \<in> filed s" by auto
      from wf_unique_parent [OF wf la lb ca(3) cb(3)] have "last as = last bs'" .
      from snoc.IH [OF ca(1,2) cb(1,2) this] bs b' show ?thesis by simp
    qed
  qed
qed

subsection \<open>Chains from the root have no repetition\<close>

lemma is_chain_prefix: "is_chain h (as @ bs) \<Longrightarrow> as \<noteq> [] \<Longrightarrow> is_chain h as"
proof (induction bs rule: rev_induct)
  case Nil
  then show ?case by simp
next
  case (snoc b bs)
  from snoc.prems have "is_chain h ((as @ bs) @ [b])" by simp
  with snoc.prems(2) have "is_chain h (as @ bs)"
    unfolding is_chain_snoc by simp
  with snoc show ?case by simp
qed

lemma root_chain_distinct:
  assumes ti: "tree_inv s" and r: "root s = Some r"
    and c: "is_chain (store s) as" and h: "hd as = r"
  shows "distinct as"
proof (rule ccontr)
  assume "\<not> distinct as"
  then obtain xs ys zs y where as: "as = xs @ [y] @ ys @ [y] @ zs"
    using not_distinct_decomp by blast
  have c1: "is_chain (store s) (xs @ [y])"
    using c is_chain_prefix [of "store s" "xs @ [y]" "ys @ [y] @ zs"] by (simp add: as)
  have c2: "is_chain (store s) (xs @ [y] @ ys @ [y])"
    using c is_chain_prefix [of "store s" "xs @ [y] @ ys @ [y]" zs] by (simp add: as)
  have h1: "hd (xs @ [y]) = r" "hd (xs @ [y] @ ys @ [y]) = r"
    using h by (cases xs; simp add: as)+
  from root_chain_unique [OF ti r c1 h1(1) c2 h1(2)] show False by simp
qed

subsection \<open>Runs whose adds name parents that exist\<close>

lemma chain_increasing:
  assumes wf: "well_formed s" and ord: "ordered s"
  shows "is_chain (store s) as \<Longrightarrow> hd as \<in> filed s \<Longrightarrow> sorted_wrt (<) as"
proof (induction "store s" as rule: is_chain.induct)
  case 1
  then show ?case by simp
next
  case (2 a)
  show ?case by simp
next
  case (3 a b bs)
  from "3.prems" have af: "a \<in> filed s" and ab: "b \<in> set (children (store s a))"
    and c: "is_chain (store s) (b # bs)" by simp_all
  from wf_children_filed [OF wf af ab] have bf: "b \<in> filed s" .
  from "3.hyps" c bf have srt: "sorted_wrt (<) (b # bs)" by simp
  from ord af ab have "a < b" unfolding ordered_def by blast
  with srt show ?case by auto
qed

lemma chain_distinct:
  assumes "well_formed s" "ordered s" "is_chain (store s) as" "hd as \<in> filed s"
  shows "distinct as"
  using chain_increasing [OF assms] by (simp add: strict_sorted_iff)

lemma top_chain_exists:
  assumes wf: "well_formed s" and ord: "ordered s"
    and cov: "\<And>a. a \<in> filed s \<Longrightarrow> a \<in> set (all_children s) \<or> T a"
  shows "b \<in> filed s \<Longrightarrow> \<exists>as. is_chain (store s) as \<and> last as = b \<and> hd as \<in> filed s \<and> T (hd as)"
proof (induction b rule: less_induct)
  case (less b)
  from cov [OF less.prems] show ?case
  proof
    assume "T b"
    with less.prems have "is_chain (store s) [b] \<and> last [b] = b \<and> hd [b] \<in> filed s \<and> T (hd [b])"
      by simp
    then show ?thesis by blast
  next
    assume "b \<in> set (all_children s)"
    then obtain p where p: "p \<in> filed s" "b \<in> set (children (store s p))"
      unfolding set_all_children by blast
    with ord have "p < b" unfolding ordered_def by blast
    from less.IH [OF this p(1)] obtain as where
      as: "is_chain (store s) as" "last as = p" "hd as \<in> filed s" "T (hd as)" by blast
    from as(1) have ne: "as \<noteq> []" by (cases as) auto
    have "is_chain (store s) (as @ [b])" using as(1,2) p(2) by (simp add: is_chain_snoc)
    moreover have "last (as @ [b]) = b" by simp
    moreover have "hd (as @ [b]) = hd as" using ne by simp
    ultimately show ?thesis using as(3,4) by metis
  qed
qed

lemma top_chain_unique:
  assumes wf: "well_formed s"
  shows "is_chain (store s) as \<Longrightarrow> hd as \<in> filed s \<Longrightarrow> hd as \<notin> set (all_children s) \<Longrightarrow>
         is_chain (store s) bs \<Longrightarrow> hd bs \<in> filed s \<Longrightarrow> hd bs \<notin> set (all_children s) \<Longrightarrow>
         last as = last bs \<Longrightarrow> as = bs"
proof (induction as arbitrary: bs rule: rev_induct)
  case Nil
  then show ?case by simp
next
  case (snoc b as)
  have noparent: False
    if "is_chain (store s) cs" "hd cs \<in> filed s" "t \<in> set (children (store s (last cs)))"
       "t \<notin> set (all_children s)" for cs t
  proof -
    from that(1) have "cs \<noteq> []" by (cases cs) auto
    with chain_filed [OF wf that(1,2)] have "last cs \<in> filed s" by auto
    with that(3,4) show False by (auto simp: set_all_children)
  qed
  from snoc.prems(4) obtain b' bs' where bs: "bs = bs' @ [b']"
    by (cases bs rule: rev_cases) auto
  with snoc.prems(7) have b': "b' = b" by simp
  show ?case
  proof (cases "as = []")
    case True
    with snoc.prems(3) have bt: "b \<notin> set (all_children s)" by simp
    show ?thesis
    proof (cases "bs' = []")
      case True
      with \<open>as = []\<close> bs b' show ?thesis by simp
    next
      case False
      with snoc.prems(4,5) bs b' have "is_chain (store s) bs'" "hd bs' \<in> filed s"
        "b \<in> set (children (store s (last bs')))" by (auto simp: is_chain_snoc)
      from noparent [OF this bt] show ?thesis ..
    qed
  next
    case False
    with snoc.prems(1,2,3) have ca: "is_chain (store s) as" "hd as \<in> filed s"
      "hd as \<notin> set (all_children s)"
      "b \<in> set (children (store s (last as)))" by (auto simp: is_chain_snoc)
    show ?thesis
    proof (cases "bs' = []")
      case True
      with snoc.prems(6) bs b' have "b \<notin> set (all_children s)" by simp
      from noparent [OF ca(1,2,4) this] show ?thesis ..
    next
      case bne: False
      with snoc.prems(4,5,6) bs b' have cb: "is_chain (store s) bs'" "hd bs' \<in> filed s"
        "hd bs' \<notin> set (all_children s)"
        "b \<in> set (children (store s (last bs')))" by (auto simp: is_chain_snoc)
      from chain_filed [OF wf ca(1,2)] False have la: "last as \<in> filed s" by auto
      from chain_filed [OF wf cb(1,2)] bne have lb: "last bs' \<in> filed s" by auto
      from wf_unique_parent [OF wf la lb ca(4) cb(4)] have "last as = last bs'" .
      from snoc.IH [OF ca(1,2,3) cb(1,2,3) this] bs b' show ?thesis by simp
    qed
  qed
qed

lemma add_forest:
  assumes ti: "tree_inv s" and ord: "ordered s" and cov: "covered s U"
    and known: "parent = None \<or> parent = Some [] \<or> map_of (nodes s) nm \<noteq> None \<or>
                map_of (nodes s) (the parent) \<noteq> None"
  shows "ordered (snd (add s nm parent hv ev bv pv)) \<and>
         covered (snd (add s nm parent hv ev bv pv))
           (U \<union> (if map_of (nodes s) nm = None \<and> (parent = None \<or> parent = Some []) \<and>
                     root s \<noteq> None then {fresh s} else {}))"
proof (cases "map_of (nodes s) nm = None")
  case False
  then have "snd (add s nm parent hv ev bv pv) = s" by (simp add: add_def)
  with False ord cov show ?thesis by auto
next
  case new: True
  from ti have wf: "well_formed s" by (simp add: tree_inv_def)
  let ?s1 = "with_new_node s nm hv ev bv pv"
  note wf1 = with_new_node_well_formed [OF wf new, of hv ev bv pv]
  have old: "\<And>b. b \<in> filed s \<Longrightarrow> b \<noteq> fresh s"
    using wf_fresh [OF wf] by auto
  have ac1: "set (all_children ?s1) = set (all_children s)"
    using old by (auto simp: set_all_children)
  have ord1: "ordered ?s1"
    using ord old unfolding ordered_def by auto
  from cov have cov1: "\<And>a. a \<in> filed s \<Longrightarrow> a \<in> set (all_children s) \<or> root s = Some a \<or> a \<in> U"
    and cov2: "\<And>a. a \<in> U \<Longrightarrow> a < fresh s"
    and cov3: "\<And>a. a \<in> U \<Longrightarrow> a \<in> filed s \<Longrightarrow> a \<notin> set (all_children s)"
    unfolding covered_def by blast+
  show ?thesis
  proof (cases "parent = None \<or> parent = Some []")
    case True
    then have un: "parent = None \<or> parent = Some [] \<or>
         map_of (nodes s @ [(nm, fresh s)]) (the parent) = None" by blast
    show ?thesis
    proof (cases "root s = None")
      case rn: True
      let ?s' = "?s1\<lparr>root := Some (fresh s)\<rparr>"
      have eq: "snd (add s nm parent hv ev bv pv) = ?s'"
        using add_unattached [OF new un, of hv ev bv pv] rn by simp
      have f': "filed ?s' = insert (fresh s) (filed s)" by (simp add: filed_def)
      have ac': "set (all_children ?s') = set (all_children s)"
        using ac1 by (simp add: set_all_children filed_def)
      have "ordered ?s'" using ord1 by (simp add: ordered_def filed_def)
      moreover have "covered ?s' U"
        unfolding covered_def f' ac'
      proof (intro conjI ballI)
        fix a assume "a \<in> insert (fresh s) (filed s)"
        then show "a \<in> set (all_children s) \<or> root ?s' = Some a \<or> a \<in> U"
          using cov1 [of a] rn by auto
      next
        fix a assume "a \<in> U"
        then show "a < fresh ?s'" using cov2 [of a] by simp
      next
        fix a assume "a \<in> U"
        then show "a \<in> insert (fresh s) (filed s) \<longrightarrow> a \<notin> set (all_children s)"
          using cov2 [of a] cov3 [of a] by auto
      qed
      ultimately show ?thesis unfolding eq using rn by simp
    next
      case rs: False
      have eq: "snd (add s nm parent hv ev bv pv) = ?s1"
        using add_unattached [OF new un, of hv ev bv pv] rs by simp
      have "covered ?s1 (U \<union> {fresh s})"
        unfolding covered_def ac1
      proof (intro conjI ballI)
        fix a assume "a \<in> filed ?s1"
        then show "a \<in> set (all_children s) \<or> root ?s1 = Some a \<or> a \<in> U \<union> {fresh s}"
          using cov1 [of a] by auto
      next
        fix a assume "a \<in> U \<union> {fresh s}"
        then show "a < fresh ?s1" using cov2 [of a] by auto
      next
        fix a assume a: "a \<in> U \<union> {fresh s}"
        show "a \<in> filed ?s1 \<longrightarrow> a \<notin> set (all_children s)"
        proof (cases "a = fresh s")
          case True
          then show ?thesis using wf1(2) ac1 by simp
        next
          case False
          with a have "a \<in> U" by simp
          with False cov3 [of a] show ?thesis by simp
        qed
      qed
      with ord1 show ?thesis unfolding eq using new True rs by simp
    qed
  next
    case False
    with known new obtain p pa where p: "parent = Some p" "p \<noteq> []" "map_of (nodes s) p = Some pa"
      by (cases parent) auto
    have p1: "map_of (nodes s @ [(nm, fresh s)]) p = Some pa"
      using p(3) by (simp add: map_add_def)
    let ?s2 = "upd_node ?s1 pa (\<lambda>n. n\<lparr>children := children n @ [fresh s]\<rparr>)"
    have eq: "snd (add s nm parent hv ev bv pv) = ?s2"
      using add_attached [OF new p(2) p1, of hv ev bv pv] p(1) by simp
    have paf: "pa \<in> filed s" using p(3) by (rule map_of_filed)
    then have palt: "pa < fresh s" by (rule wf_fresh [OF wf])
    have ch2: "\<And>a. a \<in> filed s \<Longrightarrow> set (children (store ?s2 a)) =
        (if a = pa then insert (fresh s) (set (children (store s a))) else set (children (store s a)))"
      using old by auto
    have chf: "children (store ?s2 (fresh s)) = []" using palt by simp
    have f2: "filed ?s2 = insert (fresh s) (filed s)" by simp
    have ac2: "set (all_children ?s2) = insert (fresh s) (set (all_children s))"
      unfolding set_all_children f2 using paf chf ch2 by auto
    have "ordered ?s2"
      unfolding ordered_def f2
    proof (intro ballI)
      fix a c assume a: "a \<in> insert (fresh s) (filed s)" and c: "c \<in> set (children (store ?s2 a))"
      show "a < c"
      proof (cases "a = fresh s")
        case True
        with c chf show ?thesis by simp
      next
        case False
        with a have af: "a \<in> filed s" by simp
        from c ch2 [OF af] have "c \<in> set (children (store s a)) \<or> (a = pa \<and> c = fresh s)"
          by (auto split: if_splits)
        then show ?thesis using ord af palt unfolding ordered_def by blast
      qed
    qed
    moreover have "covered ?s2 U"
      unfolding covered_def f2 ac2
    proof (intro conjI ballI)
      fix a assume "a \<in> insert (fresh s) (filed s)"
      then show "a \<in> insert (fresh s) (set (all_children s)) \<or> root ?s2 = Some a \<or> a \<in> U"
        using cov1 [of a] by auto
    next
      fix a assume "a \<in> U"
      then show "a < fresh ?s2" using cov2 [of a] by simp
    next
      fix a assume "a \<in> U"
      then show "a \<in> insert (fresh s) (filed s) \<longrightarrow> a \<notin> insert (fresh s) (set (all_children s))"
        using cov2 [of a] cov3 [of a] by auto
    qed
    ultimately show ?thesis unfolding eq using False by auto
  qed
qed

lemma delete_forest:
  assumes ti: "tree_inv s" and ord: "ordered s" and cov: "covered s U"
  shows "\<exists>r. delete s X = Some r \<and> ordered (snd r) \<and> covered (snd r) U"
proof (cases "map_of (nodes s) X")
  case None
  then show ?thesis using ord cov by (simp add: delete_absent_unchanged)
next
  case (Some x)
  from ti have wf: "well_formed s" by (simp add: tree_inv_def)
  from delete_result [OF wf Some] obtain s' where
    s': "delete s X = Some (True, s')"
      "nodes s' = filter (\<lambda>e. snd e \<notin> descendants (store s) x) (nodes s)"
      "root s' = root_after_delete s X"
      "store s' = store (find_parent_and_remove s X)" "fresh s' = fresh s" by blast
  have xf: "x \<in> filed s" using Some by (rule map_of_filed)
  have xn: "name (store s x) = X" using wf Some by (rule wf_name)
  have filed': "filed s' = filed s - descendants (store s) x"
    by (auto simp: filed_def s'(2))
  have ch': "\<And>b. b \<in> filed s \<Longrightarrow> set (children (store s' b)) = set (children (store s b)) - {x}"
    unfolding s'(4) find_parent_and_remove_children_wf [OF wf Some] by auto
  from cov have cov1: "\<And>a. a \<in> filed s \<Longrightarrow> a \<in> set (all_children s) \<or> root s = Some a \<or> a \<in> U"
    and cov2: "\<And>a. a \<in> U \<Longrightarrow> a < fresh s"
    and cov3: "\<And>a. a \<in> U \<Longrightarrow> a \<in> filed s \<Longrightarrow> a \<notin> set (all_children s)"
    unfolding covered_def by blast+
  have sub: "set (all_children s') \<subseteq> set (all_children s)"
    unfolding set_all_children filed' using ch' by auto
  have "ordered s'"
    unfolding ordered_def filed'
  proof (intro ballI)
    fix a c assume a: "a \<in> filed s - descendants (store s) x" and "c \<in> set (children (store s' a))"
    then have "a \<in> filed s" "c \<in> set (children (store s a))" using ch' [of a] by auto
    with ord show "a < c" unfolding ordered_def by blast
  qed
  moreover have "covered s' U"
    unfolding covered_def
  proof (intro conjI ballI)
    fix a assume a: "a \<in> filed s'"
    then have af: "a \<in> filed s" and ad: "a \<notin> descendants (store s) x" by (simp_all add: filed')
    have ax: "a \<noteq> x" using ad descendants_refl [of x "store s"] by auto
    from cov1 [OF af] show "a \<in> set (all_children s') \<or> root s' = Some a \<or> a \<in> U"
    proof (elim disjE)
      assume "a \<in> set (all_children s)"
      then obtain p where p: "p \<in> filed s" "a \<in> set (children (store s p))"
        unfolding set_all_children by blast
      have "p \<notin> descendants (store s) x"
      proof
        assume "p \<in> descendants (store s) x"
        from descendants_step [OF this p(2)] ad show False by simp
      qed
      with p(1) have "p \<in> filed s'" by (simp add: filed')
      moreover have "a \<in> set (children (store s' p))" using ch' [OF p(1)] p(2) ax by simp
      ultimately have "a \<in> set (all_children s')" unfolding set_all_children by blast
      then show ?thesis by simp
    next
      assume r: "root s = Some a"
      have "name (store s a) \<noteq> X"
      proof
        assume "name (store s a) = X"
        with xn have "name (store s a) = name (store s x)" by simp
        from wf_name_inj [OF wf af xf this] ax show False by simp
      qed
      with r have "root s' = Some a" by (simp add: s'(3) root_after_delete_def)
      then show ?thesis by simp
    next
      assume "a \<in> U"
      then show ?thesis by simp
    qed
  next
    fix a assume "a \<in> U"
    then show "a < fresh s'" using cov2 [of a] by (simp add: s'(5))
  next
    fix a assume "a \<in> U"
    then show "a \<in> filed s' \<longrightarrow> a \<notin> set (all_children s')"
      using cov3 [of a] sub by (auto simp: filed')
  qed
  ultimately show ?thesis using s'(1) by simp
qed

lemma run_forest:
  "tree_inv s \<Longrightarrow> ordered s \<Longrightarrow> covered s U \<Longrightarrow> parents_known ops s \<Longrightarrow>
   \<exists>s'. run ops s = Some s' \<and> tree_inv s' \<and> ordered s' \<and> covered s' (U \<union> orphans ops s)"
proof (induction ops arbitrary: s U)
  case Nil
  then show ?case by simp
next
  case (Cons opn ops)
  show ?case
  proof (cases opn)
    case (Add nm parent hv ev bv pv)
    let ?s1 = "snd (add s nm parent hv ev bv pv)"
    let ?new = "if map_of (nodes s) nm = None \<and> (parent = None \<or> parent = Some []) \<and>
                     root s \<noteq> None then {fresh s} else {}"
    from Cons.prems(4) have known: "parent = None \<or> parent = Some [] \<or> map_of (nodes s) nm \<noteq> None \<or>
                map_of (nodes s) (the parent) \<noteq> None" and pk: "parents_known ops ?s1"
      unfolding Add parents_known.simps by blast+
    from Cons.prems(1) have ti1: "tree_inv ?s1" by (rule add_tree_inv)
    from add_forest [OF Cons.prems(1,2,3) known, of hv ev bv pv]
    have o1: "ordered ?s1" and c1: "covered ?s1 (U \<union> ?new)" by blast+
    from Cons.IH [OF ti1 o1 c1 pk] obtain s' where
      s': "run ops ?s1 = Some s'" "tree_inv s'" "ordered s'"
          "covered s' ((U \<union> ?new) \<union> orphans ops ?s1)" by blast
    have "(U \<union> ?new) \<union> orphans ops ?s1 = U \<union> orphans (opn # ops) s"
      unfolding Add orphans.simps by (rule Un_assoc)
    with s' show ?thesis unfolding Add run.simps by metis
  next
    case (Delete nm)
    from delete_forest [OF Cons.prems(1,2,3), of nm] obtain r where
      r: "delete s nm = Some r" "ordered (snd r)" "covered (snd r) U" by blast
    from delete_tree_inv [OF Cons.prems(1), of nm] r(1) have ti1: "tree_inv (snd r)" by auto
    from Cons.prems(4) r(1) have pk: "parents_known ops (snd r)" by (simp add: Delete)
    from Cons.IH [OF ti1 r(2,3) pk] show ?thesis by (simp add: Delete r(1))
  qed
qed

lemma forest_init: "ordered init" "covered init {}"
  by (simp_all add: ordered_def covered_def filed_def init_def)

text \<open>
  Claim C2, as amended. Take any sequence of \<^verbatim>\<open>add\<close> and \<^verbatim>\<open>delete\<close> calls on the empty
  hierarchy in which every \<^verbatim>\<open>add\<close> that creates a node names no parent or a parent that
  is in the dictionary at the call. The sequence returns. In the hierarchy that it
  leaves, no chain of child links starting in the dictionary passes an object twice (no cycle),
  every entry of the dictionary holds an object of that name, and this object is reached
  by exactly one chain that starts at the root or at an object, still in the dictionary,
  that was created without a parent while there was a root. So the names that are not
  reachable from the root are those created without a parent beside a root and the names
  below them; where the run creates no such node, every name is reachable from the root
  by exactly one chain.
\<close>

theorem add_delete_forest:
  assumes "parents_known ops init"
  shows "\<exists>s. run ops init = Some s \<and>
     (\<forall>as. is_chain (store s) as \<and> hd as \<in> filed s \<longrightarrow> distinct as) \<and>
     (\<forall>e \<in> set (nodes s).
        name (store s (snd e)) = fst e \<and>
        (\<exists>!as. is_chain (store s) as \<and> last as = snd e \<and>
               (root s = Some (hd as) \<or> hd as \<in> orphans ops init \<inter> filed s)))"
proof -
  from run_forest [OF tree_inv_init forest_init assms] obtain s where
    s: "run ops init = Some s" "tree_inv s" "ordered s" "covered s (orphans ops init)" by auto
  let ?U = "orphans ops init"
  let ?T = "\<lambda>a. root s = Some a \<or> a \<in> ?U \<inter> filed s"
  from s(2) have wf: "well_formed s" and ar: "attached_root s" by (simp_all add: tree_inv_def)
  have top: "a \<in> filed s \<and> a \<notin> set (all_children s)" if "?T a" for a
    using that
  proof
    assume "root s = Some a"
    with ar show ?thesis by (simp add: attached_root_def)
  next
    assume "a \<in> ?U \<inter> filed s"
    with s(4) show ?thesis unfolding covered_def by blast
  qed
  have cov: "a \<in> set (all_children s) \<or> ?T a" if "a \<in> filed s" for a
    using s(4) that unfolding covered_def by blast
  have cyc: "\<forall>as. is_chain (store s) as \<and> hd as \<in> filed s \<longrightarrow> distinct as"
    using chain_distinct [OF wf s(3)] by blast
  have reach: "name (store s (snd e)) = fst e \<and>
        (\<exists>!as. is_chain (store s) as \<and> last as = snd e \<and> ?T (hd as))"
    if e: "e \<in> set (nodes s)" for e
  proof
    from e have "(fst e, snd e) \<in> set (nodes s)" by simp
    then have "map_of (nodes s) (fst e) = Some (snd e)" by (rule wf_map_of [OF wf])
    then show "name (store s (snd e)) = fst e" by (rule wf_name [OF wf])
    from e have ef: "snd e \<in> filed s" by (simp add: filed_def)
    from top_chain_exists [OF wf s(3), of ?T, OF cov ef] obtain as where
      as: "is_chain (store s) as" "last as = snd e" "?T (hd as)" by blast
    show "\<exists>!as. is_chain (store s) as \<and> last as = snd e \<and> ?T (hd as)"
    proof (rule ex1I [of _ as])
      show "is_chain (store s) as \<and> last as = snd e \<and> ?T (hd as)" using as by blast
    next
      fix bs
      assume bs: "is_chain (store s) bs \<and> last bs = snd e \<and> ?T (hd bs)"
      then have tb: "hd bs \<in> filed s" "hd bs \<notin> set (all_children s)" using top [of "hd bs"] by blast+
      from as(3) have ta: "hd as \<in> filed s" "hd as \<notin> set (all_children s)" using top [of "hd as"] by blast+
      from bs as(2) have "last bs = last as" by simp
      with top_chain_unique [OF wf _ tb _ ta, of ] bs as(1) show "bs = as" by blast
    qed
  qed
  from s(1) cyc reach show ?thesis by blast
qed

theorem add_delete_forest_witness:
  "parents_known [Add ''A'' None (PyStr []) (PyInt 0) (PyInt 0) (PyInt 0),
                  Add ''B'' (Some ''A'') (PyStr []) (PyInt 0) (PyInt 0) (PyInt 0)] init \<and>
   orphans [Add ''A'' None (PyStr []) (PyInt 0) (PyInt 0) (PyInt 0),
            Add ''B'' (Some ''A'') (PyStr []) (PyInt 0) (PyInt 0) (PyInt 0)] init = {} \<and>
   run [Add ''A'' None (PyStr []) (PyInt 0) (PyInt 0) (PyInt 0),
        Add ''B'' (Some ''A'') (PyStr []) (PyInt 0) (PyInt 0) (PyInt 0)] init = Some ex_AB \<and>
   map_of (nodes ex_AB) ''B'' = Some 1 \<and>
   (\<exists>as. is_chain (store ex_AB) as \<and> last as = 1 \<and> root ex_AB = Some (hd as)) \<and>
   parents_known [Add ''A'' None (PyStr []) (PyInt 0) (PyInt 0) (PyInt 0),
                  Add ''B'' None (PyStr []) (PyInt 0) (PyInt 0) (PyInt 0),
                  Add ''C'' (Some ''B'') (PyStr []) (PyInt 0) (PyInt 0) (PyInt 0)] init \<and>
   orphans [Add ''A'' None (PyStr []) (PyInt 0) (PyInt 0) (PyInt 0),
            Add ''B'' None (PyStr []) (PyInt 0) (PyInt 0) (PyInt 0),
            Add ''C'' (Some ''B'') (PyStr []) (PyInt 0) (PyInt 0) (PyInt 0)] init = {1} \<and>
   run [Add ''A'' None (PyStr []) (PyInt 0) (PyInt 0) (PyInt 0),
        Add ''B'' None (PyStr []) (PyInt 0) (PyInt 0) (PyInt 0),
        Add ''C'' (Some ''B'') (PyStr []) (PyInt 0) (PyInt 0) (PyInt 0)] init = Some ex_A_BC \<and>
   root ex_A_BC = Some 0 \<and> map_of (nodes ex_A_BC) ''C'' = Some 2 \<and>
   (\<exists>as. is_chain (store ex_A_BC) as \<and> last as = 2 \<and>
         (root ex_A_BC = Some (hd as) \<or> hd as \<in> {1} \<inter> filed ex_A_BC))"
proof -
  let ?ops1 = "[Add ''A'' None (PyStr []) (PyInt 0) (PyInt 0) (PyInt 0),
                Add ''B'' (Some ''A'') (PyStr []) (PyInt 0) (PyInt 0) (PyInt 0)]"
  let ?ops2 = "[Add ''A'' None (PyStr []) (PyInt 0) (PyInt 0) (PyInt 0),
                Add ''B'' None (PyStr []) (PyInt 0) (PyInt 0) (PyInt 0),
                Add ''C'' (Some ''B'') (PyStr []) (PyInt 0) (PyInt 0) (PyInt 0)]"
  have pk1: "parents_known ?ops1 init" by (simp add: add_def init_def Let_def dict_set_def)
  have or1: "orphans ?ops1 init = {}" by (simp add: add_def init_def Let_def dict_set_def)
  have run1: "run ?ops1 init = Some ex_AB" by (simp add: ex_AB_def ex_A_def add_default_def)
  have e1: "(''B'', 1) \<in> set (nodes ex_AB)" "map_of (nodes ex_AB) ''B'' = Some 1"
    by (simp_all add: example_defs)
  from add_delete_forest [OF pk1] obtain s1 where s1: "run ?ops1 init = Some s1"
    and a1: "\<forall>e \<in> set (nodes s1). name (store s1 (snd e)) = fst e \<and>
        (\<exists>!as. is_chain (store s1) as \<and> last as = snd e \<and>
               (root s1 = Some (hd as) \<or> hd as \<in> orphans ?ops1 init \<inter> filed s1))"
    by blast
  from s1 [unfolded run1] have "s1 = ex_AB" by simp
  with a1 [unfolded or1]
  have all1: "\<forall>e \<in> set (nodes ex_AB). name (store ex_AB (snd e)) = fst e \<and>
        (\<exists>!as. is_chain (store ex_AB) as \<and> last as = snd e \<and>
               (root ex_AB = Some (hd as) \<or> hd as \<in> {} \<inter> filed ex_AB))"
    by simp
  from bspec [OF all1 e1(1)]
  have c1: "\<exists>as. is_chain (store ex_AB) as \<and> last as = 1 \<and> root ex_AB = Some (hd as)"
    by auto
  have pk2: "parents_known ?ops2 init" by (simp add: add_def init_def Let_def dict_set_def)
  have or2: "orphans ?ops2 init = {1}" by (simp add: add_def init_def Let_def dict_set_def)
  have run2: "run ?ops2 init = Some ex_A_BC"
    by (simp add: ex_A_BC_def ex_A_B_def ex_A_def add_default_def)
  have e2: "(''C'', 2) \<in> set (nodes ex_A_BC)" "map_of (nodes ex_A_BC) ''C'' = Some 2"
    "root ex_A_BC = Some 0"
    by (simp_all add: ex_A_BC_def example_defs)
  from add_delete_forest [OF pk2] obtain s2 where s2: "run ?ops2 init = Some s2"
    and a2: "\<forall>e \<in> set (nodes s2). name (store s2 (snd e)) = fst e \<and>
        (\<exists>!as. is_chain (store s2) as \<and> last as = snd e \<and>
               (root s2 = Some (hd as) \<or> hd as \<in> orphans ?ops2 init \<inter> filed s2))"
    by blast
  from s2 [unfolded run2] have "s2 = ex_A_BC" by simp
  with a2 [unfolded or2]
  have all2: "\<forall>e \<in> set (nodes ex_A_BC). name (store ex_A_BC (snd e)) = fst e \<and>
        (\<exists>!as. is_chain (store ex_A_BC) as \<and> last as = snd e \<and>
               (root ex_A_BC = Some (hd as) \<or> hd as \<in> {1} \<inter> filed ex_A_BC))"
    by simp
  from bspec [OF all2 e2(1)]
  have c2: "\<exists>as. is_chain (store ex_A_BC) as \<and> last as = 2 \<and>
         (root ex_A_BC = Some (hd as) \<or> hd as \<in> {1} \<inter> filed ex_A_BC)"
    by auto
  from pk1 or1 run1 e1(2) c1 pk2 or2 run2 e2(3) e2(2) c2 show ?thesis by blast
qed

text \<open>
  Two calls outside \<open>parents_known\<close>. An \<^verbatim>\<open>add\<close> that names a parent missing from the
  dictionary does what an \<^verbatim>\<open>add\<close> without a parent does (the branch that line 36
  comments with \<^verbatim>\<open>attach at root\<close>). An \<^verbatim>\<open>add\<close> that names its own new name as the parent
  finds at line 32 the node that line 27 has just registered, and appends the node to
  its own children.
\<close>

lemma add_missing_parent:
  assumes "map_of (nodes s) nm = None" and "p \<noteq> nm" and "map_of (nodes s) p = None"
  shows "add s nm (Some p) hv ev bv pv = add s nm None hv ev bv pv"
proof -
  have "map_of (nodes s @ [(nm, fresh s)]) p = None"
    using assms(2,3) by (simp add: map_add_def)
  then have "Some p = None \<or> Some p = Some [] \<or>
      map_of (nodes s @ [(nm, fresh s)]) (the (Some p)) = None" by simp
  from add_unattached [OF assms(1) this, of hv ev bv pv]
    add_unattached [OF assms(1), of None hv ev bv pv]
  show ?thesis by simp
qed

lemma add_own_name_as_parent:
  "root (snd (add_default init ''A'' (Some ''A''))) = None \<and>
   map_of (nodes (snd (add_default init ''A'' (Some ''A'')))) ''A'' = Some 0 \<and>
   children (store (snd (add_default init ''A'' (Some ''A''))) 0) = [0]"
  by (simp add: add_default_def add_def init_def Let_def dict_set_def upd_node_def)

text \<open>
  Claim C2 as stated fails: after \<^verbatim>\<open>add("A")\<close>, \<^verbatim>\<open>add("B")\<close>, \<^verbatim>\<open>add("C")\<close> the root is A,
  the dictionary holds B and C as well, and the root has no descendant but itself.
\<close>

theorem add_without_parent_counterexample:
  "run [Add ''A'' None (PyStr []) (PyInt 0) (PyInt 0) (PyInt 0),
        Add ''B'' None (PyStr []) (PyInt 0) (PyInt 0) (PyInt 0),
        Add ''C'' None (PyStr []) (PyInt 0) (PyInt 0) (PyInt 0)] init = Some ex_A_B_C \<and>
   root ex_A_B_C = Some 0 \<and>
   map_of (nodes ex_A_B_C) ''B'' = Some 1 \<and> map_of (nodes ex_A_B_C) ''C'' = Some 2 \<and>
   descendants (store ex_A_B_C) 0 = {0}"
proof -
  have "children (store ex_A_B_C 0) = []" by (simp add: example_defs)
  then have "descendants (store ex_A_B_C) 0 = {0}" by (rule descendants_leaf)
  moreover have "run [Add ''A'' None (PyStr []) (PyInt 0) (PyInt 0) (PyInt 0),
        Add ''B'' None (PyStr []) (PyInt 0) (PyInt 0) (PyInt 0),
        Add ''C'' None (PyStr []) (PyInt 0) (PyInt 0) (PyInt 0)] init = Some ex_A_B_C"
    by (simp add: ex_A_B_C_def ex_A_B_def ex_A_def add_default_def)
  moreover have "root ex_A_B_C = Some 0" "map_of (nodes ex_A_B_C) ''B'' = Some 1"
    "map_of (nodes ex_A_B_C) ''C'' = Some 2"
    by (simp_all add: example_defs)
  ultimately show ?thesis by blast
qed

subsection \<open>Reparenting\<close>

lemma edit_reparent_only:
  assumes X: "map_of (nodes s) X = Some x" and P: "map_of (nodes s) P = Some p" and ne: "P \<noteq> []"
  shows "edit B s X None None None None None (Some P) =
     (Returned True,
      upd_node (find_parent_and_remove s (name (store s x))) p
        (\<lambda>n. n\<lparr>children := children n @ [x]\<rparr>))"
  using assms by (simp add: edit_def rename_def reparent_def Let_def)

text \<open>
  Claim C10, as amended. If the node of X is the root and P is a non-empty name of the
  dictionary, \<^verbatim>\<open>edit(X, parent=P)\<close> returns \<^verbatim>\<open>True\<close>, X's node is the last child of P's
  node afterwards, and the root is still X's node.
\<close>

theorem edit_reparent_root:
  assumes "root s = Some x" and "map_of (nodes s) X = Some x"
    and "map_of (nodes s) P = Some p" and "P \<noteq> []"
  shows "\<exists>s'. edit B s X None None None None None (Some P) = (Returned True, s') \<and>
           root s' = Some x \<and>
           children (store s' p) =
             filter (\<lambda>c. name (store s c) \<noteq> name (store s x)) (children (store s p)) @ [x]"
proof -
  from assms(3) have "p \<in> filed s" by (rule map_of_filed)
  then show ?thesis
    unfolding edit_reparent_only [OF assms(2-4)]
    by (simp add: assms(1) find_parent_and_remove_children)
qed

theorem edit_reparent_root_witness:
  "root ex_A_B = Some 0 \<and> map_of (nodes ex_A_B) ''A'' = Some 0 \<and>
   map_of (nodes ex_A_B) ''B'' = Some 1 \<and>
   (\<exists>s'. edit sample_builtins ex_A_B ''A'' None None None None None (Some ''B'')
            = (Returned True, s') \<and> root s' = Some 0 \<and> children (store s' 1) = [0])"
proof -
  have h: "root ex_A_B = Some 0" "map_of (nodes ex_A_B) ''A'' = Some 0"
    "map_of (nodes ex_A_B) ''B'' = Some 1" "''B'' \<noteq> []"
    and c: "children (store ex_A_B 1) = []"
    by (simp_all add: example_defs)
  from edit_reparent_root [OF h, of sample_builtins] h c show ?thesis by simp
qed

text \<open>
  Claim C10 as stated fails for the node with the empty name: with the root A and a
  second node named \<^verbatim>\<open>""\<close>, \<^verbatim>\<open>edit("A", parent="")\<close> returns \<^verbatim>\<open>True\<close> and appends
  nothing to that node's children.
\<close>

theorem edit_reparent_empty_name_counterexample:
  "root ex_A_E = Some 0 \<and> map_of (nodes ex_A_E) ''A'' = Some 0 \<and>
   map_of (nodes ex_A_E) [] = Some 1 \<and>
   fst (edit sample_builtins ex_A_E ''A'' None None None None None (Some [])) = Returned True \<and>
   children (store (snd (edit sample_builtins ex_A_E ''A'' None None None None None (Some []))) 1)
     = []"
  by (simp add: example_defs edit_def rename_def reparent_def find_parent_and_remove_store)

lemma descendants_mono:
  assumes "\<And>b. set (children (h b)) \<subseteq> set (children (h' b))"
  shows "descendants h a \<subseteq> descendants h' a"
proof
  fix b
  assume "b \<in> descendants h a"
  then show "b \<in> descendants h' a"
  proof (induction rule: descendants_induct)
    case self
    show ?case by simp
  next
    case (child b c)
    from child.hyps(2) assms have "c \<in> set (children (h' b))" by blast
    with child.IH show ?case by (rule descendants_step)
  qed
qed

lemma descendants_trancl:
  "b \<in> descendants h a \<Longrightarrow> a \<in> set (children (h b)) \<Longrightarrow> (a, a) \<in> (child_rel h)\<^sup>+"
  unfolding descendants_def child_rel_def
  by (auto intro: rtrancl_into_trancl1)

text \<open>
  Claim C3, as amended. \<^verbatim>\<open>edit\<close> has no check for cycles. On a well-formed hierarchy,
  \<^verbatim>\<open>edit(X, parent=P)\<close> with a non-empty name P whose node lies in the subtree of X's
  node (X's node itself or a descendant) returns \<^verbatim>\<open>True\<close>; afterwards X's node is a
  child of P's node while P's node is still a descendant of X's: the node is its own
  ancestor.
\<close>

theorem edit_reparent_into_subtree:
  assumes "well_formed s" and "map_of (nodes s) X = Some x"
    and "map_of (nodes s) P = Some p" and "P \<noteq> []" and "p \<in> descendants (store s) x"
  shows "\<exists>s'. edit B s X None None None None None (Some P) = (Returned True, s') \<and>
           x \<in> set (children (store s' p)) \<and> p \<in> descendants (store s') x \<and>
           (x, x) \<in> (child_rel (store s'))\<^sup>+"
proof -
  let ?t = "find_parent_and_remove s X"
  let ?s' = "upd_node ?t p (\<lambda>n. n\<lparr>children := children n @ [x]\<rparr>)"
  have xn: "name (store s x) = X" using assms(1,2) by (rule wf_name)
  have ed: "edit B s X None None None None None (Some P) = (Returned True, ?s')"
    by (simp add: edit_reparent_only [OF assms(2-4)] xn)
  have ch: "x \<in> set (children (store ?s' p))" by simp
  have "p \<in> descendants (store ?t) x"
    using assms(5) by (simp add: descendants_detached [OF assms(1,2)])
  moreover have "descendants (store ?t) x \<subseteq> descendants (store ?s') x"
    by (rule descendants_mono) auto
  ultimately have d: "p \<in> descendants (store ?s') x" by blast
  from d ch have "(x, x) \<in> (child_rel (store ?s'))\<^sup>+" by (rule descendants_trancl)
  with ed ch d show ?thesis by blast
qed

theorem edit_reparent_into_subtree_witness:
  "well_formed ex_AB \<and> map_of (nodes ex_AB) ''A'' = Some 0 \<and>
   map_of (nodes ex_AB) ''B'' = Some 1 \<and> 1 \<in> descendants (store ex_AB) 0 \<and>
   (\<exists>s'. edit sample_builtins ex_AB ''A'' None None None None None (Some ''B'')
            = (Returned True, s') \<and>
          0 \<in> set (children (store s' 1)) \<and> (0, 0) \<in> (child_rel (store s'))\<^sup>+)"
proof -
  have h: "map_of (nodes ex_AB) ''A'' = Some 0" "map_of (nodes ex_AB) ''B'' = Some 1"
    "''B'' \<noteq> []"
    and ch: "children (store ex_AB 0) = [1]"
    by (simp_all add: example_defs)
  have d: "1 \<in> descendants (store ex_AB) 0"
    by (rule descendants_step [of 0]) (simp_all add: ch)
  from edit_reparent_into_subtree [OF well_formed_ex_AB h d, of sample_builtins]
    well_formed_ex_AB h d
  show ?thesis by blast
qed

text \<open>
  Claim C3 as stated fails: with B a child of A, \<^verbatim>\<open>edit("A", parent="B")\<close> returns
  \<^verbatim>\<open>True\<close> and leaves A a child of B and B a child of A.
\<close>

theorem edit_reparent_cycle_counterexample:
  "map_of (nodes ex_AB) ''A'' = Some 0 \<and> map_of (nodes ex_AB) ''B'' = Some 1 \<and>
   children (store ex_AB 0) = [1] \<and>
   fst (edit sample_builtins ex_AB ''A'' None None None None None (Some ''B'')) = Returned True \<and>
   children (store (snd (edit sample_builtins ex_AB ''A'' None None None None None (Some ''B''))) 1)
     = [0] \<and>
   children (store (snd (edit sample_builtins ex_AB ''A'' None None None None None (Some ''B''))) 0)
     = [1]"
  by (simp add: example_defs edit_def rename_def reparent_def find_parent_and_remove_store)

subsection \<open>Renaming\<close>

lemma fold_fix_ref_id:
  "\<forall>c \<in> set cs. name (h c) \<noteq> old \<Longrightarrow> fold (fix_ref old new) cs h = h"
  by (induction cs) (simp_all add: fix_ref_def)

lemma fold_fix_refs_id:
  "\<forall>n \<in> set ns. \<forall>c \<in> set (children (h n)). name (h c) \<noteq> old \<Longrightarrow>
   fold (fix_refs old new) ns h = h"
  by (induction ns) (simp_all add: fix_refs_def fold_fix_ref_id)

lemma those_map_option:
  "\<forall>c \<in> set cs. f' c = map_option g (f c) \<Longrightarrow>
   those (map f' cs) = map_option (map g) (those (map f cs))"
  by (induction cs) (auto split: option.splits simp: option.map_comp comp_def)

lemma map_of_dict_del: "map_of (dict_del k d) k' = (if k' = k then None else map_of d k')"
  by (induction d) (auto simp: dict_del_def)

lemma set_dict_del: "set (dict_del k d) \<subseteq> set d"
  by (auto simp: dict_del_def)

lemma names_of_rename_nested:
  "new \<noteq> old \<Longrightarrow> old \<notin> set (names_of (rename_nested old new d))"
  by (induction old new d rule: rename_nested.induct) auto

lemma rename_result:
  assumes wf: "well_formed s" and X: "map_of (nodes s) X = Some x"
    and Y: "Y \<noteq> []" "map_of (nodes s) Y = None"
  shows "rename s x X (Some Y) =
     Some (s\<lparr>store := (store s)(x := (store s x)\<lparr>name := Y\<rparr>),
             nodes := dict_del X (nodes s @ [(Y, x)])\<rparr>)"
proof -
  from X Y(2) have neq: "Y \<noteq> X" by auto
  have xf: "x \<in> filed s" using X by (rule map_of_filed)
  have xn: "name (store s x) = X" using wf X by (rule wf_name)
  let ?h = "(store s)(x := (store s x)\<lparr>name := Y\<rparr>)"
  let ?N = "dict_del X (nodes s @ [(Y, x)])"
  have "name (?h c) \<noteq> X" if "n \<in> set (map snd ?N)" "c \<in> set (children (?h n))" for n c
  proof -
    from that(1) obtain k where "(k, n) \<in> set ?N" by auto
    with set_dict_del [of X "nodes s @ [(Y, x)]"] have "n = x \<or> (k, n) \<in> set (nodes s)"
      by auto
    with xf have nf: "n \<in> filed s" by (force simp: filed_def)
    from that(2) have "c \<in> set (children (store s n))" by (simp split: if_splits)
    with nf have cf: "c \<in> filed s" by (rule wf_children_filed [OF wf])
    show ?thesis
    proof (cases "c = x")
      case True
      with neq show ?thesis by simp
    next
      case False
      with wf_name_inj [OF wf cf xf] have "name (store s c) \<noteq> X"
        unfolding xn by blast
      with False show ?thesis by simp
    qed
  qed
  then have fx: "fold (fix_refs X Y) (map snd ?N) ?h = ?h"
    by (intro fold_fix_refs_id) blast
  have "rename s x X (Some Y) =
      Some (s\<lparr>store := fold (fix_refs X Y) (map snd ?N) ?h, nodes := ?N\<rparr>)"
    using Y neq by (simp add: rename_def Let_def upd_node_def dict_set_new)
  then show ?thesis unfolding fx .
qed

lemma to_dict_node_renamed:
  assumes wf: "well_formed s" and x: "map_of (nodes s) X = Some x" and neq: "Y \<noteq> X"
  shows "a \<in> filed s \<Longrightarrow>
     to_dict_node n ((store s)(x := (store s x)\<lparr>name := Y\<rparr>)) a =
       map_option (rename_nested X Y) (to_dict_node n (store s) a)"
proof (induction n arbitrary: a)
  case 0
  show ?case by simp
next
  case (Suc n)
  let ?h = "(store s)(x := (store s x)\<lparr>name := Y\<rparr>)"
  have xf: "x \<in> filed s" using x by (rule map_of_filed)
  have xn: "name (store s x) = X" using wf x by (rule wf_name)
  have ch: "children (?h a) = children (store s a)" by simp
  have "\<forall>c \<in> set (children (store s a)).
        to_dict_node n ?h c = map_option (rename_nested X Y) (to_dict_node n (store s) c)"
    using Suc.IH wf_children_filed [OF wf Suc.prems] by blast
  then have th: "those (map (to_dict_node n ?h) (children (store s a))) =
      map_option (map (rename_nested X Y)) (those (map (to_dict_node n (store s)) (children (store s a))))"
    by (rule those_map_option)
  have nm: "name (?h a) = (if name (store s a) = X then Y else name (store s a))"
  proof (cases "a = x")
    case True
    then show ?thesis by (simp add: xn)
  next
    case False
    with wf_name_inj [OF wf Suc.prems xf] have "name (store s a) \<noteq> X"
      unfolding xn by blast
    with False show ?thesis by simp
  qed
  have fields: "head (?h a) = head (store s a)" "employees (?h a) = employees (store s a)"
    "budget (?h a) = budget (store s a)" "perf (?h a) = perf (store s a)"
    by simp_all
  show ?case
    unfolding to_dict_node.simps ch th nm fields
    by (cases "those (map (to_dict_node n (store s)) (children (store s a)))") simp_all
qed

text \<open>
  Claim C5, as amended. On a well-formed hierarchy whose root, if any, is in the
  dictionary, \<^verbatim>\<open>edit(X, new_name=Y)\<close> with X a key and Y a non-empty name that is no key
  returns \<^verbatim>\<open>True\<close>. Afterwards the dictionary maps Y, and no longer X, to the node;
  \<^verbatim>\<open>to_dict\<close> gives what it gave before with the name X replaced by Y at the node's
  place and everything else (attributes, children, order) as it was; neither the
  serialized tree nor any node of the dictionary carries the name X.
\<close>

theorem edit_rename:
  assumes "well_formed s" and "root_filed s" and "map_of (nodes s) X = Some x"
    and "Y \<noteq> []" and "map_of (nodes s) Y = None"
  shows "\<exists>s'. edit B s X (Some Y) None None None None None = (Returned True, s') \<and>
           map_of (nodes s') Y = Some x \<and> map_of (nodes s') X = None \<and>
           (\<forall>n. to_dict n s' = map_option (rename_nested X Y) (to_dict n s)) \<and>
           (\<forall>n d. to_dict n s' = Some d \<longrightarrow> X \<notin> set (names_of d)) \<and>
           (\<forall>e \<in> set (nodes s'). name (store s' (snd e)) \<noteq> X)"
proof -
  let ?h = "(store s)(x := (store s x)\<lparr>name := Y\<rparr>)"
  let ?s' = "s\<lparr>store := ?h, nodes := dict_del X (nodes s @ [(Y, x)])\<rparr>"
  from assms(3,5) have neq: "Y \<noteq> X" by auto
  have xf: "x \<in> filed s" using assms(3) by (rule map_of_filed)
  have xn: "name (store s x) = X" using assms(1,3) by (rule wf_name)
  have ed: "edit B s X (Some Y) None None None None None = (Returned True, ?s')"
    using assms(3) by (simp add: edit_def rename_result [OF assms(1,3,4,5)] reparent_def)
  have mY: "map_of (nodes ?s') Y = Some x"
    using neq assms(5) by (simp add: map_of_dict_del map_add_def)
  have mX: "map_of (nodes ?s') X = None"
    by (simp add: map_of_dict_del)
  have td: "to_dict n ?s' = map_option (rename_nested X Y) (to_dict n s)" for n
  proof (cases "root s")
    case None
    then show ?thesis by (simp add: to_dict_def)
  next
    case (Some r)
    with assms(2) have "r \<in> filed s" by (simp add: root_filed_def)
    from to_dict_node_renamed [OF assms(1,3) neq this] Some show ?thesis
      by (simp add: to_dict_def)
  qed
  have nX: "X \<notin> set (names_of d)" if "to_dict n ?s' = Some d" for n d
    using that names_of_rename_nested [OF neq] unfolding td by auto
  have nn: "name (store ?s' (snd e)) \<noteq> X" if "e \<in> set (nodes ?s')" for e
  proof -
    from that set_dict_del [of X "nodes s @ [(Y, x)]"] have "snd e = x \<or> e \<in> set (nodes s)"
      by auto
    with xf have ef: "snd e \<in> filed s" by (force simp: filed_def)
    show ?thesis
    proof (cases "snd e = x")
      case True
      with neq show ?thesis by simp
    next
      case False
      with wf_name_inj [OF assms(1) ef xf] have "name (store s (snd e)) \<noteq> X"
        unfolding xn by blast
      with False show ?thesis by simp
    qed
  qed
  from ed mY mX td nX nn show ?thesis by blast
qed

lemma root_filed_ex_AB: "root_filed ex_AB"
  by (simp add: root_filed_def filed_def example_defs)

theorem edit_rename_witness:
  "well_formed ex_AB \<and> root_filed ex_AB \<and> map_of (nodes ex_AB) ''A'' = Some 0 \<and>
   map_of (nodes ex_AB) ''C'' = None \<and>
   (\<exists>s'. edit sample_builtins ex_AB ''A'' (Some ''C'') None None None None None
            = (Returned True, s') \<and>
          map_of (nodes s') ''A'' = None \<and> map_of (nodes s') ''C'' = Some 0 \<and>
          to_dict 2 s' = Some (Dict ''C'' (PyStr []) (PyInt 0) (PyInt 0) (PyInt 0)
                                 [Dict ''B'' (PyStr []) (PyInt 0) (PyInt 0) (PyInt 0) []]))"
proof -
  have h: "map_of (nodes ex_AB) ''A'' = Some 0" "''C'' \<noteq> []" "map_of (nodes ex_AB) ''C'' = None"
    by (simp_all add: example_defs)
  have td: "to_dict 2 ex_AB = Some (Dict ''A'' (PyStr []) (PyInt 0) (PyInt 0) (PyInt 0)
                                 [Dict ''B'' (PyStr []) (PyInt 0) (PyInt 0) (PyInt 0) []])"
    by (simp add: example_defs to_dict_def numeral_2_eq_2)
  from edit_rename [OF well_formed_ex_AB root_filed_ex_AB h, of sample_builtins]
  obtain s' where s': "edit sample_builtins ex_AB ''A'' (Some ''C'') None None None None None
      = (Returned True, s')" "map_of (nodes s') ''C'' = Some 0" "map_of (nodes s') ''A'' = None"
    "to_dict 2 s' = map_option (rename_nested ''A'' ''C'') (to_dict 2 ex_AB)" by blast
  from s'(4) have "to_dict 2 s' = Some (Dict ''C'' (PyStr []) (PyInt 0) (PyInt 0) (PyInt 0)
                                 [Dict ''B'' (PyStr []) (PyInt 0) (PyInt 0) (PyInt 0) []])"
    by (simp add: td)
  with s'(1-3) well_formed_ex_AB root_filed_ex_AB h show ?thesis by blast
qed

text \<open>
  Claim C5 as stated fails for the empty name, which is a name not in the dictionary:
  \<^verbatim>\<open>edit("A", new_name="")\<close> returns \<^verbatim>\<open>True\<close> and the dictionary still maps A, and not
  the empty name, to the node.
\<close>

theorem edit_rename_empty_counterexample:
  "map_of (nodes ex_AB) ''A'' = Some 0 \<and> map_of (nodes ex_AB) [] = None \<and>
   fst (edit sample_builtins ex_AB ''A'' (Some []) None None None None None) = Returned True \<and>
   map_of (nodes (snd (edit sample_builtins ex_AB ''A'' (Some []) None None None None None))) []
     = None \<and>
   map_of (nodes (snd (edit sample_builtins ex_AB ''A'' (Some []) None None None None None))) ''A''
     = Some 0"
  by (simp add: example_defs edit_def rename_def reparent_def)

subsection \<open>An exception of a conversion\<close>

text \<open>
  An exception raised by \<^verbatim>\<open>int(employees)\<close> leaves \<^verbatim>\<open>edit\<close> at line 74: the call has
  no result, and the assignment of line 73 has been made.
\<close>

lemma edit_raise_keeps_head_update:
  assumes "map_of (nodes s) X = Some x" and "py_int B e = Inl err"
  shows "edit B s X new_name (Some h) (Some e) bv pv parent =
           (Raised err, upd_node s x (\<lambda>n. n\<lparr>head := h\<rparr>))"
  using assms by (simp add: edit_def)

subsection \<open>Building a hierarchy from a nested structure\<close>

lemma to_dict_node_frame:
  assumes same: "\<And>b. lo \<le> b \<Longrightarrow> b < hi \<Longrightarrow> h' b = h b"
    and closed: "\<And>b c. lo \<le> b \<Longrightarrow> b < hi \<Longrightarrow> c \<in> set (children (h b)) \<Longrightarrow> lo \<le> c \<and> c < hi"
  shows "lo \<le> a \<Longrightarrow> a < hi \<Longrightarrow> to_dict_node n h' a = to_dict_node n h a"
proof (induction n arbitrary: a)
  case 0
  show ?case by simp
next
  case (Suc n)
  have ha: "h' a = h a" using Suc.prems by (rule same)
  have "map (to_dict_node n h') (children (h a)) = map (to_dict_node n h) (children (h a))"
    using Suc.IH closed [OF Suc.prems] by (intro map_cong) auto
  then show ?case by (simp only: to_dict_node.simps ha)
qed

lemma those_map_Some [simp]: "those (map Some xs) = Some xs"
  by (induction xs) simp_all

lemma graftedD:
  assumes "grafted s s' pa d"
  shows "fresh s < fresh s'" and "root s' = root s"
    and "\<And>b. b < fresh s \<Longrightarrow> b \<noteq> pa \<Longrightarrow> store s' b = store s b"
    and "store s' pa = (store s pa)\<lparr>children := children (store s pa) @ [fresh s]\<rparr>"
    and "\<And>k. k \<notin> set (names_of d) \<Longrightarrow> map_of (nodes s') k = map_of (nodes s) k"
    and "\<And>b c. fresh s \<le> b \<Longrightarrow> b < fresh s' \<Longrightarrow> c \<in> set (children (store s' b)) \<Longrightarrow>
            fresh s \<le> c \<and> c < fresh s'"
    and "\<And>n. fits n d \<Longrightarrow> to_dict_node n (store s') (fresh s) = Some d"
  using assms unfolding grafted_def by blast+

lemma grafted_allD:
  assumes "grafted_all s s' pa ds"
  shows "fresh s \<le> fresh s'" and "root s' = root s"
    and "\<And>b. b < fresh s \<Longrightarrow> b \<noteq> pa \<Longrightarrow> store s' b = store s b"
    and "\<exists>ks. store s' pa = (store s pa)\<lparr>children := children (store s pa) @ ks\<rparr> \<and>
           (\<forall>k \<in> set ks. fresh s \<le> k \<and> k < fresh s') \<and>
           (\<forall>n. list_all (fits n) ds \<longrightarrow> map (to_dict_node n (store s')) ks = map Some ds)"
    and "\<And>k. k \<notin> set (concat (map names_of ds)) \<Longrightarrow> map_of (nodes s') k = map_of (nodes s) k"
    and "\<And>b c. fresh s \<le> b \<Longrightarrow> b < fresh s' \<Longrightarrow> c \<in> set (children (store s' b)) \<Longrightarrow>
            fresh s \<le> c \<and> c < fresh s'"
  using assms unfolding grafted_all_def by blast+

lemma build_children:
  assumes IH: "\<And>c s. c \<in> set cs \<Longrightarrow> proper c \<Longrightarrow> distinct (names_of c) \<Longrightarrow>
                 \<forall>k \<in> set (names_of c). map_of (nodes s) k = None \<Longrightarrow>
                 map_of (nodes s) nm = Some a \<Longrightarrow> a < fresh s \<Longrightarrow>
                 grafted s (build c (Some nm) s) a c"
    and nm: "cs \<noteq> [] \<longrightarrow> nm \<noteq> []"
  shows "list_all proper cs \<Longrightarrow> distinct (concat (map names_of cs)) \<Longrightarrow>
         \<forall>k \<in> set (concat (map names_of cs)). map_of (nodes s) k = None \<Longrightarrow>
         map_of (nodes s) nm = Some a \<Longrightarrow> a < fresh s \<Longrightarrow>
         grafted_all s (fold (\<lambda>c. build c (Some nm)) cs s) a cs"
  using IH
proof (induction cs arbitrary: s)
  case Nil
  show ?case by (simp add: grafted_all_def)
next
  case (Cons c cs)
  let ?t = "build c (Some nm) s"
  let ?s' = "fold (\<lambda>c. build c (Some nm)) cs ?t"
  have g1: "grafted s ?t a c"
    by (rule Cons.prems(6)) (use Cons.prems(1-5) in auto)
  note ft = graftedD(1) [OF g1] and rt = graftedD(2) [OF g1] and old1 = graftedD(3) [OF g1]
    and a1 = graftedD(4) [OF g1] and keys1 = graftedD(5) [OF g1] and cl1 = graftedD(6) [OF g1]
    and td1 = graftedD(7) [OF g1]
  have nmc: "nm \<notin> set (names_of c)"
    using Cons.prems(3,4) by auto
  have "grafted_all ?t ?s' a cs"
  proof (rule Cons.IH)
    show "list_all proper cs" "distinct (concat (map names_of cs))"
      using Cons.prems(1,2) by simp_all
    show "\<forall>k \<in> set (concat (map names_of cs)). map_of (nodes ?t) k = None"
    proof
      fix k assume k: "k \<in> set (concat (map names_of cs))"
      with Cons.prems(2) have "k \<notin> set (names_of c)" by auto
      with keys1 Cons.prems(3) k show "map_of (nodes ?t) k = None" by simp
    qed
    show "map_of (nodes ?t) nm = Some a" using keys1 [OF nmc] Cons.prems(4) by simp
    show "a < fresh ?t" using Cons.prems(5) ft by simp
    show "\<And>c' s'. c' \<in> set cs \<Longrightarrow> proper c' \<Longrightarrow> distinct (names_of c') \<Longrightarrow>
            \<forall>k \<in> set (names_of c'). map_of (nodes s') k = None \<Longrightarrow>
            map_of (nodes s') nm = Some a \<Longrightarrow> a < fresh s' \<Longrightarrow>
            grafted s' (build c' (Some nm) s') a c'"
      by (rule Cons.prems(6)) simp_all
  qed
  then have g2: "grafted_all ?t ?s' a cs" .
  note f2 = grafted_allD(1) [OF g2] and r2 = grafted_allD(2) [OF g2]
    and old2 = grafted_allD(3) [OF g2] and keys2 = grafted_allD(5) [OF g2]
    and cl2 = grafted_allD(6) [OF g2]
  from grafted_allD(4) [OF g2] obtain ks where
    a2: "store ?s' a = (store ?t a)\<lparr>children := children (store ?t a) @ ks\<rparr>"
    and rg2: "\<And>k. k \<in> set ks \<Longrightarrow> fresh ?t \<le> k \<and> k < fresh ?s'"
    and td2: "\<And>n. list_all (fits n) cs \<Longrightarrow> map (to_dict_node n (store ?s')) ks = map Some cs"
    by blast
  have same: "store ?s' b = store ?t b" if "fresh s \<le> b" "b < fresh ?t" for b
    by (rule old2) (use that Cons.prems(5) in simp_all)
  have td: "to_dict_node n (store ?s') (fresh s) = Some c" if "fits n c" for n
  proof -
    have "to_dict_node n (store ?s') (fresh s) = to_dict_node n (store ?t) (fresh s)"
    proof (rule to_dict_node_frame [where lo = "fresh s" and hi = "fresh ?t"])
      show "\<And>b. fresh s \<le> b \<Longrightarrow> b < fresh ?t \<Longrightarrow> store ?s' b = store ?t b"
        by (rule same)
      show "\<And>b x. fresh s \<le> b \<Longrightarrow> b < fresh ?t \<Longrightarrow> x \<in> set (children (store ?t b)) \<Longrightarrow>
              fresh s \<le> x \<and> x < fresh ?t"
        by (rule cl1)
      show "fresh s \<le> fresh s" by simp
      show "fresh s < fresh ?t" by (rule ft)
    qed
    with td1 [OF that] show ?thesis by simp
  qed
  have "store ?s' a = (store s a)\<lparr>children := children (store s a) @ (fresh s # ks)\<rparr>"
    by (simp add: a2 a1)
  moreover have "\<forall>k \<in> set (fresh s # ks). fresh s \<le> k \<and> k < fresh ?s'"
    using rg2 ft f2 by force
  moreover have "map (to_dict_node n (store ?s')) (fresh s # ks) = map Some (c # cs)"
    if "list_all (fits n) (c # cs)" for n
    using that td td2 by simp
  moreover have "store ?s' b = store s b" if "b < fresh s" "b \<noteq> a" for b
    using that old1 old2 ft by simp
  moreover have "map_of (nodes ?s') k = map_of (nodes s) k"
    if "k \<notin> set (concat (map names_of (c # cs)))" for k
    using that keys1 keys2 by simp
  moreover have "fresh s \<le> x \<and> x < fresh ?s'"
    if "fresh s \<le> b" "b < fresh ?s'" "x \<in> set (children (store ?s' b))" for b x
  proof (cases "b < fresh ?t")
    case True
    with that same cl1 [of b x] f2 show ?thesis by auto
  next
    case False
    with that cl2 [of b x] ft show ?thesis by auto
  qed
  moreover have "fresh s \<le> fresh ?s'" "root ?s' = root s"
    using ft f2 r2 rt by simp_all
  ultimately have "grafted_all s ?s' a (c # cs)"
    unfolding grafted_all_def by blast
  then show ?case by simp
qed

lemma node_with_children:
  assumes IH': "\<forall>c s. c \<in> set cs \<longrightarrow> proper c \<longrightarrow> distinct (names_of c) \<longrightarrow>
                 (\<forall>k \<in> set (names_of c). map_of (nodes s) k = None) \<longrightarrow>
                 map_of (nodes s) nm = Some a \<longrightarrow> a < fresh s \<longrightarrow>
                 grafted s (build c (Some nm) s) a c"
    and pr: "proper (Dict nm hv ev bv pv cs)" and di: "distinct (names_of (Dict nm hv ev bv pv cs))"
    and new: "\<forall>k \<in> set (concat (map names_of cs)). map_of (nodes (s1 :: 'v hierarchy)) k = None"
    and nm: "map_of (nodes s1) nm = Some a" and a: "a < fresh s1"
    and node: "store s1 a = \<lparr>name = nm, head = hv, employees = ev, budget = bv, perf = pv,
                              children = []\<rparr>"
  shows "grafted_all s1 (fold (\<lambda>c. build c (Some nm)) cs s1) a cs"
    and "\<And>n c. c \<in> set (children (store (fold (\<lambda>c. build c (Some nm)) cs s1) a)) \<Longrightarrow>
           fresh s1 \<le> c \<and> c < fresh (fold (\<lambda>c. build c (Some nm)) cs s1)"
    and "\<And>n. fits n (Dict nm hv ev bv pv cs) \<Longrightarrow>
           to_dict_node n (store (fold (\<lambda>c. build c (Some nm)) cs s1)) a
             = Some (Dict nm hv ev bv pv cs)"
proof -
  let ?s' = "fold (\<lambda>c. build c (Some nm)) cs s1"
  have IH: "grafted s (build c (Some nm) s) a c"
    if "c \<in> set cs" "proper c" "distinct (names_of c)"
      "\<forall>k \<in> set (names_of c). map_of (nodes s) k = None" "map_of (nodes s) nm = Some a"
      "a < fresh s" for c and s :: "'v hierarchy"
    using IH' that by blast
  from pr have ne: "cs \<noteq> [] \<longrightarrow> nm \<noteq> []" by auto
  show g: "grafted_all s1 ?s' a cs"
  proof (rule build_children [where nm = nm and a = a and cs = cs, OF IH ne])
    show "list_all proper cs" using pr by simp
    show "distinct (concat (map names_of cs))" using di by simp
    show "\<forall>k \<in> set (concat (map names_of cs)). map_of (nodes s1) k = None" by (rule new)
    show "map_of (nodes s1) nm = Some a" by (rule nm)
    show "a < fresh s1" by (rule a)
  qed
  from grafted_allD(4) [OF g] obtain ks where
    a2: "store ?s' a = (store s1 a)\<lparr>children := children (store s1 a) @ ks\<rparr>"
    and rg: "\<And>k. k \<in> set ks \<Longrightarrow> fresh s1 \<le> k \<and> k < fresh ?s'"
    and td: "\<And>n. list_all (fits n) cs \<Longrightarrow> map (to_dict_node n (store ?s')) ks = map Some cs"
    by blast
  have sa: "store ?s' a = \<lparr>name = nm, head = hv, employees = ev, budget = bv, perf = pv,
                            children = ks\<rparr>"
    by (simp add: a2 node)
  show "fresh s1 \<le> c \<and> c < fresh ?s'" if "c \<in> set (children (store ?s' a))" for c
    using that rg by (simp add: sa)
  show "to_dict_node n (store ?s') a = Some (Dict nm hv ev bv pv cs)"
    if "fits n (Dict nm hv ev bv pv cs)" for n
  proof (cases n)
    case 0
    with that show ?thesis by simp
  next
    case (Suc m)
    with that have "list_all (fits m) cs" by simp
    from td [OF this] show ?thesis by (simp add: Suc sa)
  qed
qed

lemma build_grafted:
  "proper d \<Longrightarrow> distinct (names_of d) \<Longrightarrow>
   \<forall>k \<in> set (names_of d). map_of (nodes (s :: 'v hierarchy)) k = None \<Longrightarrow>
   p \<noteq> [] \<Longrightarrow> map_of (nodes s) p = Some pa \<Longrightarrow> pa < fresh s \<Longrightarrow>
   grafted s (build d (Some p) s) pa d"
proof (induction d arbitrary: s p pa)
  case Empty
  then show ?case by simp
next
  case (Dict nm hv ev bv pv cs)
  let ?d = "Dict nm hv ev bv pv cs"
  define a where "a = fresh s"
  define s1 where "s1 = upd_node (with_new_node s nm hv ev bv pv) pa
      (\<lambda>n. n\<lparr>children := children n @ [fresh s]\<rparr>)"
  let ?s' = "fold (\<lambda>c. build c (Some nm)) cs s1"
  from Dict.prems(3) have nmnew: "map_of (nodes s) nm = None" by simp
  from Dict.prems(3,5) have pnm: "p \<noteq> nm" by auto
  have lk: "map_of (nodes s @ [(nm, fresh s)]) k = (if k = nm then Some (fresh s) else map_of (nodes s) k)"
    for k using nmnew by (auto simp: map_add_def split: option.splits)
  have "add s nm (Some p) hv ev bv pv = (True, s1)"
    unfolding s1_def using nmnew Dict.prems(4)
    by (rule add_attached) (simp add: lk pnm Dict.prems(5) del: map_of_append)
  then have bd: "build ?d (Some p) s = ?s'" by simp
  have paa: "pa \<noteq> a" using Dict.prems(6) by (simp add: a_def)
  have IH: "\<forall>c t. c \<in> set cs \<longrightarrow> proper c \<longrightarrow> distinct (names_of c) \<longrightarrow>
                 (\<forall>k \<in> set (names_of c). map_of (nodes t) k = None) \<longrightarrow>
                 map_of (nodes t) nm = Some a \<longrightarrow> a < fresh t \<longrightarrow>
                 grafted t (build c (Some nm) t) a c"
  proof (intro allI impI)
    fix c and t :: "'v hierarchy"
    assume c: "c \<in> set cs" "proper c" "distinct (names_of c)"
      "\<forall>k \<in> set (names_of c). map_of (nodes t) k = None" "map_of (nodes t) nm = Some a"
      "a < fresh t"
    from c(1) Dict.prems(1) have "nm \<noteq> []" by auto
    from Dict.IH [OF c(1,2,3,4) this c(5,6)] show "grafted t (build c (Some nm) t) a c" .
  qed
  have new1: "\<forall>k \<in> set (concat (map names_of cs)). map_of (nodes s1) k = None"
  proof
    fix k assume k: "k \<in> set (concat (map names_of cs))"
    with Dict.prems(2) have "k \<noteq> nm" by auto
    moreover from k Dict.prems(3) have "map_of (nodes s) k = None" by force
    ultimately show "map_of (nodes s1) k = None" by (simp add: s1_def lk del: map_of_append)
  qed
  have nm1: "map_of (nodes s1) nm = Some a" by (simp add: s1_def lk a_def del: map_of_append)
  have a1: "a < fresh s1" by (simp add: s1_def a_def)
  have node1: "store s1 a = \<lparr>name = nm, head = hv, employees = ev, budget = bv, perf = pv,
                               children = []\<rparr>"
    using paa by (simp add: s1_def a_def)
  note nwc = node_with_children [OF IH Dict.prems(1,2) new1 nm1 a1 node1]
  note g = nwc(1)
  have fs1: "fresh s1 = Suc (fresh s)" by (simp add: s1_def)
  have le: "Suc (fresh s) \<le> fresh ?s'" using grafted_allD(1) [OF g] unfolding fs1 .
  have rs1: "root s1 = root s" by (simp add: s1_def)
  have "fresh s < fresh ?s'" using le by linarith
  moreover have "root ?s' = root s" using grafted_allD(2) [OF g] unfolding rs1 .
  moreover have "store ?s' b = store s b" if "b < fresh s" "b \<noteq> pa" for b
  proof -
    have "store ?s' b = store s1 b" by (rule grafted_allD(3) [OF g]) (use that fs1 a_def in simp_all)
    moreover have "store s1 b = store s b" using that by (simp add: s1_def)
    ultimately show ?thesis by (rule trans)
  qed
  moreover have "store ?s' pa = (store s pa)\<lparr>children := children (store s pa) @ [fresh s]\<rparr>"
  proof -
    have "store ?s' pa = store s1 pa"
      by (rule grafted_allD(3) [OF g]) (use Dict.prems(6) fs1 paa in simp_all)
    moreover have "store s1 pa = (store s pa)\<lparr>children := children (store s pa) @ [fresh s]\<rparr>"
      using paa by (simp add: s1_def a_def)
    ultimately show ?thesis by (rule trans)
  qed
  moreover have "map_of (nodes ?s') k = map_of (nodes s) k" if "k \<notin> set (names_of ?d)" for k
  proof -
    from that have "k \<notin> set (concat (map names_of cs))" "k \<noteq> nm" by auto
    have "map_of (nodes s1) k = map_of (nodes s) k"
      using \<open>k \<noteq> nm\<close> by (simp add: s1_def lk del: map_of_append)
    with grafted_allD(5) [OF g \<open>k \<notin> set (concat (map names_of cs))\<close>]
    show ?thesis by (rule trans)
  qed
  moreover have "fresh s \<le> c \<and> c < fresh ?s'"
    if "fresh s \<le> b" "b < fresh ?s'" "c \<in> set (children (store ?s' b))" for b c
  proof (cases "b = a")
    case True
    with that(3) have "c \<in> set (children (store ?s' a))" by simp
    from nwc(2) [OF this] show ?thesis unfolding fs1 by linarith
  next
    case False
    with that(1) have "fresh s1 \<le> b" by (simp add: fs1 a_def)
    from grafted_allD(6) [OF g this that(2,3)] show ?thesis unfolding fs1 by linarith
  qed
  moreover have "to_dict_node n (store ?s') (fresh s) = Some ?d" if "fits n ?d" for n
    using nwc(3) [OF that] unfolding a_def .
  ultimately have "grafted s ?s' pa ?d"
    unfolding grafted_def by blast
  then show ?case by (simp only: bd)
qed

lemma reconstruct_to_dict:
  assumes pr: "proper (d :: 'v nested)" and di: "distinct (names_of d)" and fi: "fits n d"
  shows "to_dict n (reconstruct d) = Some d"
proof (cases d)
  case Empty
  with pr show ?thesis by simp
next
  case (Dict nm hv ev bv pv cs)
  define s1 :: "'v hierarchy" where "s1 = (with_new_node init nm hv ev bv pv)\<lparr>root := Some 0\<rparr>"
  let ?s' = "fold (\<lambda>c. build c (Some nm)) cs s1"
  have i0: "nodes (init :: 'v hierarchy) = []" "fresh (init :: 'v hierarchy) = 0"
    "root (init :: 'v hierarchy) = None"
    by (simp_all add: init_def)
  have "add init nm None hv ev bv pv = (True, s1)"
    using add_unattached [of init nm None hv ev bv pv] by (simp add: i0 s1_def)
  then have rc: "reconstruct d = ?s'" by (simp add: reconstruct_def Dict)
  have IH: "\<forall>c s. c \<in> set cs \<longrightarrow> proper c \<longrightarrow> distinct (names_of c) \<longrightarrow>
                 (\<forall>k \<in> set (names_of c). map_of (nodes s) k = None) \<longrightarrow>
                 map_of (nodes s) nm = Some 0 \<longrightarrow> 0 < fresh s \<longrightarrow>
                 grafted s (build c (Some nm) s) 0 c"
  proof (intro allI impI)
    fix c and t :: "'v hierarchy"
    assume c: "c \<in> set cs" "proper c" "distinct (names_of c)"
      "\<forall>k \<in> set (names_of c). map_of (nodes t) k = None" "map_of (nodes t) nm = Some 0"
      "0 < fresh t"
    from c(1) pr have "nm \<noteq> []" by (auto simp: Dict)
    from build_grafted [OF c(2,3,4) this c(5,6)] show "grafted t (build c (Some nm) t) 0 c" .
  qed
  have new1: "\<forall>k \<in> set (concat (map names_of cs)). map_of (nodes s1) k = None"
  proof
    fix k assume "k \<in> set (concat (map names_of cs))"
    with di have "k \<noteq> nm" by (auto simp: Dict)
    then show "map_of (nodes s1) k = None" by (simp add: s1_def i0)
  qed
  have nm1: "map_of (nodes s1) nm = Some 0" by (simp add: s1_def i0)
  have a1: "0 < fresh s1" by (simp add: s1_def)
  have node1: "store s1 0 = \<lparr>name = nm, head = hv, employees = ev, budget = bv, perf = pv,
                               children = []\<rparr>"
    by (simp add: s1_def i0)
  note nwc = node_with_children [OF IH pr [unfolded Dict] di [unfolded Dict] new1 nm1 a1 node1]
  have "root ?s' = root s1" by (rule grafted_allD(2) [OF nwc(1)])
  then have "root ?s' = Some 0" by (simp add: s1_def)
  moreover have "to_dict_node n (store ?s') 0 = Some d"
    using nwc(3) [of n] fi by (simp only: Dict)
  ultimately show ?thesis by (simp add: rc to_dict_def)
qed

lemma reconstruct_Empty: "to_dict n (reconstruct Empty) = Some Empty"
  by (simp add: reconstruct_def to_dict_def init_def)

text \<open>What \<^verbatim>\<open>to_dict\<close> returns.\<close>

lemma those_SomeD:
  "those (map f cs) = Some ds \<Longrightarrow> ds = map (\<lambda>c. the (f c)) cs \<and> (\<forall>c \<in> set cs. f c \<noteq> None)"
  by (induction cs arbitrary: ds) (auto split: option.splits)

lemma those_None: "those (map f cs) = None \<Longrightarrow> \<exists>c \<in> set cs. f c = None"
  by (induction cs) (auto split: option.splits)

lemma to_dict_node_SucD:
  assumes "to_dict_node (Suc n) h a = Some d"
  shows "d = Dict (name (h a)) (head (h a)) (employees (h a)) (budget (h a)) (perf (h a))
               (map (\<lambda>c. the (to_dict_node n h c)) (children (h a)))"
    and "\<And>c. c \<in> set (children (h a)) \<Longrightarrow> \<exists>d'. to_dict_node n h c = Some d'"
proof -
  from assms obtain ds where ds: "those (map (to_dict_node n h) (children (h a))) = Some ds"
    and d: "d = Dict (name (h a)) (head (h a)) (employees (h a)) (budget (h a)) (perf (h a)) ds"
    by auto
  from those_SomeD [OF ds] d
  show "d = Dict (name (h a)) (head (h a)) (employees (h a)) (budget (h a)) (perf (h a))
               (map (\<lambda>c. the (to_dict_node n h c)) (children (h a)))"
    by simp
  show "\<exists>d'. to_dict_node n h c = Some d'" if "c \<in> set (children (h a))" for c
    using those_SomeD [OF ds] that by auto
qed

lemma to_dict_node_fits: "to_dict_node n h a = Some d \<Longrightarrow> fits n d"
proof (induction n arbitrary: a d)
  case 0
  then show ?case by simp
next
  case (Suc n)
  note D = to_dict_node_SucD [OF Suc.prems]
  have "fits n (the (to_dict_node n h c))" if "c \<in> set (children (h a))" for c
    using D(2) [OF that] Suc.IH by auto
  then show ?case by (subst D(1)) (simp add: list_all_iff)
qed

lemma to_dict_node_proper:
  assumes wf: "well_formed s"
  shows "a \<in> filed s \<Longrightarrow> to_dict_node n (store s) a = Some d \<Longrightarrow> proper d"
proof (induction n arbitrary: a d)
  case 0
  then show ?case by simp
next
  case (Suc n)
  note D = to_dict_node_SucD [OF Suc.prems(2)]
  have "proper (the (to_dict_node n (store s) c))" if "c \<in> set (children (store s a))" for c
    using D(2) [OF that] Suc.IH [OF wf_children_filed [OF wf Suc.prems(1) that]] by auto
  moreover have "name (store s a) = [] \<longrightarrow> children (store s a) = []"
    using wf_empty_name [OF wf Suc.prems(1)] by blast
  ultimately show ?case by (subst D(1)) (simp add: list_all_iff)
qed

lemma descendants_fuel:
  assumes "to_dict_node m h a = Some d" and "b \<in> descendants h a"
  shows "\<exists>m' d'. m' \<le> m \<and> to_dict_node m' h b = Some d'"
  using assms(2)
proof (induction rule: descendants_induct)
  case self
  with assms(1) show ?case by blast
next
  case (child b c)
  from child.IH obtain m' d' where m': "m' \<le> m" "to_dict_node m' h b = Some d'" by blast
  then obtain k where k: "m' = Suc k" by (cases m') auto
  from to_dict_node_SucD(2) [OF m'(2) [unfolded k] child.hyps(2)] m'(1) k
  show ?case by (metis Suc_leD)
qed

lemma no_cycle_below:
  assumes c: "c \<in> set (children (h a))" and cyc: "a \<in> descendants h c"
  shows "to_dict_node m h a = None"
proof (induction m rule: less_induct)
  case (less m)
  show ?case
  proof (rule ccontr)
    assume "to_dict_node m h a \<noteq> None"
    then obtain d where d: "to_dict_node m h a = Some d" by auto
    then obtain k where k: "m = Suc k" by (cases m) auto
    from to_dict_node_SucD(2) [OF d [unfolded k] c] obtain d' where
      "to_dict_node k h c = Some d'" by blast
    from descendants_fuel [OF this cyc] obtain m' d'' where
      "m' \<le> k" "to_dict_node m' h a = Some d''" by blast
    with less.IH [of m'] k show False by simp
  qed
qed

lemma descendants_meet:
  assumes wf: "well_formed s" and p: "p \<in> filed s" and q: "q \<in> filed s"
    and bp: "b \<in> descendants (store s) p" and bq: "b \<in> descendants (store s) q"
  shows "p \<in> descendants (store s) q \<or> q \<in> descendants (store s) p"
  using bp bq
proof (induction rule: descendants_induct)
  case self
  then show ?case by simp
next
  case (child b c)
  from descendants_cases [OF child.prems] show ?case
  proof
    assume "c = q"
    with child.hyps have "q \<in> descendants (store s) p" by (auto intro: descendants_step)
    then show ?thesis ..
  next
    assume "\<exists>r \<in> descendants (store s) q. c \<in> set (children (store s r))"
    then obtain r where r: "r \<in> descendants (store s) q" "c \<in> set (children (store s r))"
      by blast
    from r(1) have rf: "r \<in> filed s" by (rule wf_descendants_filed [OF wf q])
    from child.hyps(1) have bf: "b \<in> filed s" by (rule wf_descendants_filed [OF wf p])
    from wf_unique_parent [OF wf rf bf r(2) child.hyps(2)] r(1)
    have "b \<in> descendants (store s) q" by simp
    then show ?thesis by (rule child.IH)
  qed
qed

lemma descendants_unfold:
  "descendants h a = insert a (\<Union>c \<in> set (children (h a)). descendants h c)"
proof -
  have "b = a \<or> (\<exists>c \<in> set (children (h a)). b \<in> descendants h c)"
    if "b \<in> descendants h a" for b
  proof -
    from that have "(a, b) \<in> (child_rel h)\<^sup>*" by (simp add: descendants_def)
    then show ?thesis
      by (rule converse_rtranclE) (auto simp: descendants_def child_rel_def)
  qed
  moreover have "b \<in> descendants h a" if "c \<in> set (children (h a))" "b \<in> descendants h c" for b c
  proof -
    from that(1) have "(a, c) \<in> child_rel h" by (simp add: child_rel_def)
    with that(2) show ?thesis
      unfolding descendants_def by (auto intro: converse_rtrancl_into_rtrancl)
  qed
  ultimately show ?thesis by auto
qed

subsection \<open>Serializing, rebuilding and serializing again\<close>

lemma to_dict_node_names:
  assumes wf: "well_formed s"
  shows "a \<in> filed s \<Longrightarrow> to_dict_node n (store s) a = Some d \<Longrightarrow>
         distinct (names_of d) \<and>
         set (names_of d) = (\<lambda>b. name (store s b)) ` descendants (store s) a"
proof (induction n arbitrary: a d)
  case 0
  then show ?case by simp
next
  case (Suc n)
  let ?h = "store s"
  let ?nm = "\<lambda>b. name (?h b)"
  let ?g = "\<lambda>c. the (to_dict_node n ?h c)"
  let ?cs = "children (?h a)"
  note af = Suc.prems(1)
  note D = to_dict_node_SucD [OF Suc.prems(2)]
  have cf: "c \<in> filed s" if "c \<in> set ?cs" for c
    using wf af that by (rule wf_children_filed)
  have IH: "distinct (names_of (?g c)) \<and> set (names_of (?g c)) = ?nm ` descendants ?h c"
    if "c \<in> set ?cs" for c
    using D(2) [OF that] Suc.IH [OF cf [OF that]] by auto
  have nocyc: "a \<notin> descendants ?h c" if "c \<in> set ?cs" for c
    using no_cycle_below [where h = ?h and a = a and c = c and m = "Suc n", OF that] Suc.prems(2)
    by auto
  have inj: "b = b'" if "b \<in> descendants ?h c" "b' \<in> descendants ?h c'" "?nm b = ?nm b'"
      "c \<in> filed s" "c' \<in> filed s" for b b' c c'
  proof -
    from that(1,4) have "b \<in> filed s" using wf_descendants_filed [OF wf] by blast
    moreover from that(2,5) have "b' \<in> filed s" using wf_descendants_filed [OF wf] by blast
    ultimately show ?thesis using that(3) by (rule wf_name_inj [OF wf])
  qed
  have apart: "False" if c: "c \<in> set ?cs" "c' \<in> set ?cs" "c \<noteq> c'"
      and cd: "c \<in> descendants ?h c'" for c c'
  proof -
    from descendants_cases [OF cd] c(3) obtain r where
      r: "r \<in> descendants ?h c'" "c \<in> set (children (?h r))" by blast
    from r(1) have "r \<in> filed s" by (rule wf_descendants_filed [OF wf cf [OF c(2)]])
    from wf_unique_parent [OF wf this af r(2) c(1)] r(1) nocyc [OF c(2)] show False by simp
  qed
  have disj: "set (names_of (?g c)) \<inter> set (names_of (?g c')) = {}"
    if c: "c \<in> set ?cs" "c' \<in> set ?cs" "c \<noteq> c'" for c c'
  proof (rule ccontr)
    assume "set (names_of (?g c)) \<inter> set (names_of (?g c')) \<noteq> {}"
    then obtain k where "k \<in> set (names_of (?g c))" "k \<in> set (names_of (?g c'))" by blast
    with IH [OF c(1)] IH [OF c(2)] obtain b b' where
      b: "b \<in> descendants ?h c" "b' \<in> descendants ?h c'" "?nm b = ?nm b'" by auto
    from inj [OF b cf [OF c(1)] cf [OF c(2)]] b(2) have "b \<in> descendants ?h c'" by simp
    from descendants_meet [OF wf cf [OF c(1)] cf [OF c(2)] b(1) this]
    show False using apart [OF c] apart [OF c(2,1)] c(3) by auto
  qed
  have dc: "distinct ?cs" using wf af by (rule wf_distinct_children)
  have d1: "distinct (concat (map (\<lambda>c. names_of (?g c)) ?cs))"
    unfolding distinct_concat_map [OF dc] using IH disj by blast
  have top: "?nm a \<notin> set (concat (map (\<lambda>c. names_of (?g c)) ?cs))"
  proof
    assume "?nm a \<in> set (concat (map (\<lambda>c. names_of (?g c)) ?cs))"
    then obtain c where c: "c \<in> set ?cs" "?nm a \<in> set (names_of (?g c))" by auto
    with IH [OF c(1)] obtain b where b: "b \<in> descendants ?h c" "?nm b = ?nm a" by auto
    from b(1) have "b \<in> filed s" by (rule wf_descendants_filed [OF wf cf [OF c(1)]])
    from wf_name_inj [OF wf this af b(2)] b(1) nocyc [OF c(1)] show False by simp
  qed
  have nd: "names_of d = ?nm a # concat (map (\<lambda>c. names_of (?g c)) ?cs)"
    by (subst D(1)) (simp add: comp_def)
  have "set (names_of d) = ?nm ` descendants ?h a"
    unfolding nd descendants_unfold [of ?h a] using IH by auto
  with d1 top show ?case by (simp add: nd)
qed

lemma to_dict_node_None_chain:
  "to_dict_node n h a = None \<Longrightarrow> \<exists>as. is_chain h as \<and> hd as = a \<and> length as = Suc n"
proof (induction n arbitrary: a)
  case 0
  have "is_chain h [a] \<and> hd [a] = a \<and> length [a] = Suc 0" by simp
  then show ?case by blast
next
  case (Suc n)
  then have "those (map (to_dict_node n h) (children (h a))) = None" by simp
  from those_None [OF this] obtain c where c: "c \<in> set (children (h a))"
    "to_dict_node n h c = None" by blast
  from Suc.IH [OF c(2)] obtain as where as: "is_chain h as" "hd as = c" "length as = Suc n"
    by blast
  then obtain bs where "as = c # bs" by (cases as) auto
  with as c(1) have "is_chain h (a # as) \<and> hd (a # as) = a \<and> length (a # as) = Suc (Suc n)"
    by simp
  then show ?case by blast
qed

lemma tree_inv_to_dict:
  assumes "tree_inv s"
  shows "\<exists>d. to_dict (length (nodes s)) s = Some d"
proof (cases "root s")
  case None
  then show ?thesis by (simp add: to_dict_def)
next
  case (Some r)
  from assms have wf: "well_formed s" and ar: "attached_root s" by (simp_all add: tree_inv_def)
  from ar Some have rf: "r \<in> filed s" by (simp add: attached_root_def)
  have "to_dict_node (length (nodes s)) (store s) r \<noteq> None"
  proof
    assume "to_dict_node (length (nodes s)) (store s) r = None"
    from to_dict_node_None_chain [OF this] obtain as where
      as: "is_chain (store s) as" "hd as = r" "length as = Suc (length (nodes s))" by blast
    from root_chain_distinct [OF assms Some as(1,2)] have "distinct as" .
    moreover from chain_filed [OF wf as(1)] as(2) rf have "set as \<subseteq> filed s" by simp
    ultimately have "length as \<le> length (nodes s)" by (rule filed_card)
    with as(3) show False by simp
  qed
  with Some show ?thesis by (auto simp: to_dict_def)
qed

text \<open>
  Claim C6. Let the hierarchy be well-formed with its root, if any, in the dictionary.
  Whenever \<^verbatim>\<open>to_dict\<close> returns a nested structure, rebuilding a fresh hierarchy from that
  structure with \<^verbatim>\<open>build\<close> and serializing it again returns the same structure, within
  the same recursion depth. And \<^verbatim>\<open>to_dict\<close> does return, within a depth of the number of
  departments, on every hierarchy whose root is nobody's child: so on all that \<^verbatim>\<open>add\<close>
  and \<^verbatim>\<open>delete\<close> produce.
\<close>

theorem serialize_round_trip:
  assumes "well_formed s" and "root_filed s"
  shows "(\<forall>n d. to_dict n s = Some d \<longrightarrow> to_dict n (reconstruct d) = Some d) \<and>
         (attached_root s \<longrightarrow> (\<exists>d. to_dict (length (nodes s)) s = Some d))"
proof (intro conjI allI impI)
  fix n d
  assume td: "to_dict n s = Some d"
  show "to_dict n (reconstruct d) = Some d"
  proof (cases "root s")
    case None
    with td have "d = Empty" by (simp add: to_dict_def)
    then show ?thesis by (simp add: reconstruct_Empty)
  next
    case (Some r)
    with assms(2) have rf: "r \<in> filed s" by (simp add: root_filed_def)
    from td Some have tn: "to_dict_node n (store s) r = Some d" by (simp add: to_dict_def)
    from to_dict_node_proper [OF assms(1) rf tn] to_dict_node_names [OF assms(1) rf tn]
      to_dict_node_fits [OF tn]
    show ?thesis by (intro reconstruct_to_dict) auto
  qed
next
  assume "attached_root s"
  with assms(1) have "tree_inv s" by (simp add: tree_inv_def)
  then show "\<exists>d. to_dict (length (nodes s)) s = Some d" by (rule tree_inv_to_dict)
qed

theorem serialize_round_trip_witness:
  "well_formed ex_AB \<and> root_filed ex_AB \<and> attached_root ex_AB \<and>
   to_dict 2 ex_AB = Some (Dict ''A'' (PyStr []) (PyInt 0) (PyInt 0) (PyInt 0)
                             [Dict ''B'' (PyStr []) (PyInt 0) (PyInt 0) (PyInt 0) []]) \<and>
   to_dict 2 (reconstruct (Dict ''A'' (PyStr []) (PyInt 0) (PyInt 0) (PyInt 0)
                             [Dict ''B'' (PyStr []) (PyInt 0) (PyInt 0) (PyInt 0) []]))
     = Some (Dict ''A'' (PyStr []) (PyInt 0) (PyInt 0) (PyInt 0)
               [Dict ''B'' (PyStr []) (PyInt 0) (PyInt 0) (PyInt 0) []]) \<and>
   (\<exists>d. to_dict (length (nodes ex_AB)) ex_AB = Some d)"
proof -
  have td: "to_dict 2 ex_AB = Some (Dict ''A'' (PyStr []) (PyInt 0) (PyInt 0) (PyInt 0)
                                 [Dict ''B'' (PyStr []) (PyInt 0) (PyInt 0) (PyInt 0) []])"
    by (simp add: example_defs to_dict_def numeral_2_eq_2)
  have ar: "attached_root ex_AB"
    by (simp add: attached_root_def all_children_def filed_def example_defs)
  from serialize_round_trip [OF well_formed_ex_AB root_filed_ex_AB] td ar
    well_formed_ex_AB root_filed_ex_AB
  show ?thesis by blast
qed

subsection \<open>The operation edit keeps hierarchies well-formed\<close>

lemma well_formed_cong:
  assumes "nodes s' = nodes s" and "fresh s' = fresh s"
    and "\<And>b. name (store s' b) = name (store s b)"
    and "\<And>b. children (store s' b) = children (store s b)"
  shows "well_formed s' = well_formed s"
  by (simp add: well_formed_def all_children_def filed_def assms)

lemma well_formed_upd_fields:
  assumes "\<And>n. name (f n) = name n" and "\<And>n. children (f n) = children n"
  shows "well_formed (upd_node s a f) = well_formed s"
  by (rule well_formed_cong) (simp_all add: assms)

lemma coerce_into_well_formed:
  assumes "\<And>w n. name (setter w n) = name n" and "\<And>w n. children (setter w n) = children n"
  shows "coerce_into conv setter a v s = Inr s' \<Longrightarrow>
           well_formed s' = well_formed s \<and> nodes s' = nodes s"
    and "coerce_into conv setter a v s = Inl (e, s') \<Longrightarrow> s' = s"
  by (cases v; auto split: sum.splits simp: well_formed_upd_fields assms)+

lemma rename_well_formed:
  assumes wf: "well_formed s" and x: "map_of (nodes s) X = Some x"
    and r: "rename s x X new_name = Some s'"
  shows "well_formed s' \<and> x \<in> filed s'"
proof -
  have xf: "x \<in> filed s" using x by (rule map_of_filed)
  have "s' = s \<or> (\<exists>Y. new_name = Some Y \<and> Y \<noteq> [] \<and> Y \<noteq> X \<and> map_of (nodes s) Y = None)"
  proof (cases new_name)
    case None
    with r show ?thesis by (simp add: rename_def)
  next
    case (Some Y)
    show ?thesis
    proof (cases "Y \<noteq> [] \<and> Y \<noteq> X")
      case False
      with r Some show ?thesis by (auto simp: rename_def)
    next
      case True
      with r Some have "map_of (nodes s) Y = None"
        by (cases "map_of (nodes s) Y") (simp_all add: rename_def)
      with True Some show ?thesis by simp
    qed
  qed
  then consider "s' = s" | Y where "new_name = Some Y" "Y \<noteq> []" "Y \<noteq> X" "map_of (nodes s) Y = None"
    by blast
  then show ?thesis
  proof cases
    case 1
    with wf xf show ?thesis by simp
  next
    case 2
    let ?N = "dict_del X (nodes s @ [(Y, x)])"
    from rename_result [OF wf x 2(2,4)] r 2(1)
    have s': "s' = s\<lparr>store := (store s)(x := (store s x)\<lparr>name := Y\<rparr>), nodes := ?N\<rparr>"
      by simp
    have xn: "name (store s x) = X" using wf x by (rule wf_name)
    have Ydef: "?N = filter (\<lambda>e. fst e \<noteq> X) (nodes s) @ [(Y, x)]"
      using 2(3) by (simp add: dict_del_def case_prod_unfold)
    have ent: "snd e \<noteq> x \<and> e \<in> set (nodes s)" if "e \<in> set (filter (\<lambda>e. fst e \<noteq> X) (nodes s))" for e
    proof -
      from that have e: "e \<in> set (nodes s)" "fst e \<noteq> X" by auto
      from e(1) wf have "name (store s (snd e)) = fst e" by (auto simp: well_formed_def)
      with e(2) xn show ?thesis using e(1) by auto
    qed
    have ns': "set (nodes s') = insert (Y, x) (set (filter (\<lambda>e. fst e \<noteq> X) (nodes s)))"
      by (simp add: s' Ydef)
    have filed': "filed s' = filed s"
    proof (intro set_eqI iffI)
      fix b assume "b \<in> filed s'"
      then obtain e where e: "e \<in> set (nodes s')" "b = snd e" by (auto simp: filed_def)
      from e(1) have "e = (Y, x) \<or> e \<in> set (filter (\<lambda>e. fst e \<noteq> X) (nodes s))"
        unfolding ns' by simp
      then show "b \<in> filed s"
      proof
        assume "e = (Y, x)"
        with e(2) xf show ?thesis by simp
      next
        assume "e \<in> set (filter (\<lambda>e. fst e \<noteq> X) (nodes s))"
        from ent [OF this] e(2) show ?thesis by (auto simp: filed_def)
      qed
    next
      fix b assume "b \<in> filed s"
      then obtain k where kb: "(k, b) \<in> set (nodes s)" by (auto simp: filed_def)
      show "b \<in> filed s'"
      proof (cases "k = X")
        case True
        with wf_map_of [OF wf kb] x have "b = x" by simp
        then have "(Y, b) \<in> set (nodes s')" unfolding ns' by simp
        then show ?thesis unfolding filed_def by force
      next
        case False
        with kb have "(k, b) \<in> set (nodes s')" unfolding ns' by simp
        then show ?thesis unfolding filed_def by force
      qed
    qed
    have ch: "children (store s' b) = children (store s b)" for b by (simp add: s')
    have "well_formed s'"
    proof (rule well_formedI)
      have "Y \<notin> fst ` set (nodes s)" using 2(4) by (simp add: map_of_eq_None_iff)
      then show "distinct (map fst (nodes s'))"
        using wf by (auto simp: s' Ydef well_formed_def distinct_map_filter)
      have "distinct (map snd (filter (\<lambda>e. fst e \<noteq> X) (nodes s)))"
        using wf by (simp add: well_formed_def distinct_map_filter)
      moreover have "x \<notin> snd ` set (filter (\<lambda>e. fst e \<noteq> X) (nodes s))"
        using ent by blast
      ultimately show "distinct (map snd (nodes s'))"
        unfolding s' Ydef by simp
      show "name (store s' b) = k \<and> b < fresh s' \<and> set (children (store s' b)) \<subseteq> filed s' \<and>
            (k = [] \<longrightarrow> children (store s' b) = [])" if "(k, b) \<in> set (nodes s')" for k b
      proof (cases "(k, b) = (Y, x)")
        case True
        with wf_fresh [OF wf xf] wf_children_filed [OF wf xf] 2(2) show ?thesis
          unfolding filed' ch by (auto simp: s')
      next
        case False
        with that have e: "(k, b) \<in> set (filter (\<lambda>e. fst e \<noteq> X) (nodes s))"
          unfolding ns' by blast
        from ent [OF this] have bx: "b \<noteq> x" and e': "(k, b) \<in> set (nodes s)" by auto
        from e' wf have "name (store s b) = k" "b < fresh s" "set (children (store s b)) \<subseteq> filed s"
          "k = [] \<longrightarrow> children (store s b) = []"
          by (force simp: well_formed_def)+
        with bx show ?thesis unfolding filed' ch by (auto simp: s')
      qed
      show "distinct (children (store s' b))" if "b \<in> filed s'" for b
        using that wf_distinct_children [OF wf, of b] unfolding filed' ch by simp
      show "set (children (store s' b)) \<inter> set (children (store s' c)) = {}"
        if "b \<in> filed s'" "c \<in> filed s'" "b \<noteq> c" for b c
        using that wf_unique_parent [OF wf, of b c] unfolding filed' ch by auto
    qed
    with xf filed' show ?thesis by simp
  qed
qed

lemma reparent_well_formed:
  assumes wf: "well_formed s" and xf: "x \<in> filed s"
  shows "well_formed (reparent s x parent)"
proof (cases parent)
  case None
  with wf show ?thesis by (simp add: reparent_def)
next
  case (Some p)
  let ?t = "find_parent_and_remove s (name (store s x))"
  have wft: "well_formed ?t" using wf by (rule find_parent_and_remove_well_formed)
  show ?thesis
  proof (cases "p = [] \<or> map_of (nodes ?t) p = None")
    case True
    with wft show ?thesis by (simp add: reparent_def Some Let_def)
  next
    case False
    then obtain pa where pa: "map_of (nodes ?t) p = Some pa" and pne: "p \<noteq> []" by auto
    have paf: "pa \<in> filed ?t" using pa by (rule map_of_filed)
    have "name (store ?t pa) = p" using wft pa by (rule wf_name)
    with pne have nm: "name (store ?t pa) \<noteq> []" by simp
    have det: "x \<notin> set (all_children ?t)"
      by (rule find_parent_and_remove_detached [OF wf wf_filed_map_of [OF wf xf]])
    from well_formed_attach [OF wft paf nm _ det] xf
    have "well_formed (upd_node ?t pa (\<lambda>n. n\<lparr>children := children n @ [x]\<rparr>))" by simp
    with False pa show ?thesis by (simp add: reparent_def Some Let_def)
  qed
qed

lemma edit_well_formed:
  assumes wf: "well_formed s"
  shows "well_formed (snd (edit B s X new_name hv ev bv pv parent))"
proof (cases "map_of (nodes s) X")
  case None
  with wf show ?thesis by (simp add: edit_def)
next
  case (Some x)
  define s1 where "s1 = (case hv of None \<Rightarrow> s | Some v \<Rightarrow> upd_node s x (\<lambda>n. n\<lparr>head := v\<rparr>))"
  have wf1: "well_formed s1" and n1: "nodes s1 = nodes s"
    using wf by (auto simp: s1_def well_formed_upd_fields split: option.splits)
  note ci = coerce_into_well_formed
  show ?thesis
  proof (cases "coerce_into (py_int B) (\<lambda>w n. n\<lparr>employees := w\<rparr>) x ev s1")
    case (Inl r)
    with ci(2) [of "\<lambda>w n. n\<lparr>employees := w\<rparr>" "py_int B" x ev s1 "fst r" "snd r"] wf1
    show ?thesis by (simp add: edit_def Some s1_def [symmetric] split_beta)
  next
    case s2: (Inr s2)
    from ci(1) [OF _ _ s2] wf1 n1 have wf2: "well_formed s2" and n2: "nodes s2 = nodes s" by simp_all
    show ?thesis
    proof (cases "coerce_into (py_float B) (\<lambda>w n. n\<lparr>budget := w\<rparr>) x bv s2")
      case (Inl r)
      with ci(2) [of "\<lambda>w n. n\<lparr>budget := w\<rparr>" "py_float B" x bv s2 "fst r" "snd r"] wf2
      show ?thesis by (simp add: edit_def Some s1_def [symmetric] s2 split_beta)
    next
      case s3: (Inr s3)
      from ci(1) [OF _ _ s3] wf2 n2 have wf3: "well_formed s3" and n3: "nodes s3 = nodes s"
        by simp_all
      show ?thesis
      proof (cases "coerce_into (py_float B) (\<lambda>w n. n\<lparr>perf := w\<rparr>) x pv s3")
        case (Inl r)
        with ci(2) [of "\<lambda>w n. n\<lparr>perf := w\<rparr>" "py_float B" x pv s3 "fst r" "snd r"] wf3
        show ?thesis by (simp add: edit_def Some s1_def [symmetric] s2 s3 split_beta)
      next
        case s4: (Inr s4)
        from ci(1) [OF _ _ s4] wf3 n3 have wf4: "well_formed s4" and n4: "nodes s4 = nodes s"
          by simp_all
        from Some n4 have x4: "map_of (nodes s4) X = Some x" by simp
        show ?thesis
        proof (cases "rename s4 x X new_name")
          case None
          with wf4 show ?thesis by (simp add: edit_def Some s1_def [symmetric] s2 s3 s4)
        next
          case s5: (Some s5)
          from rename_well_formed [OF wf4 x4 s5] have "well_formed (reparent s5 x parent)"
            by (intro reparent_well_formed) simp_all
          then show ?thesis by (simp add: edit_def Some s1_def [symmetric] s2 s3 s4 s5)
        qed
      qed
    qed
  qed
qed

end
